theory Spec2Isabelle
  imports Main "HOL-Library.AList"
begin

section \<open>The channel core of tchannel-node (channel.js)\<close>

text \<open>
  The development models \<^verbatim>\<open>channel.js\<close>: the \<^verbatim>\<open>TChannel\<close> constructor and the methods
  \<^verbatim>\<open>getServer\<close>, \<^verbatim>\<open>onServerSocketConnection\<close>, \<^verbatim>\<open>onServerSocketListening\<close>,
  \<^verbatim>\<open>makeSubChannel\<close>, \<^verbatim>\<open>listen\<close>, \<^verbatim>\<open>register\<close>, \<^verbatim>\<open>request\<close> and \<^verbatim>\<open>close\<close>.

  JavaScript objects have identity and are mutated in place, so channels live in a store
  indexed by object identifiers, and every method takes the store and returns the updated
  one. A thrown exception is the \<open>Inl\<close> branch of the result; the store that is
  returned with it is the store at the moment of the throw. Calls into the collaborators
  that are not part of this file (peer pool, connection, server socket, handler, logger,
  event emitter) are appended to a trace in the order in which the code performs them;
  the callbacks that the code hands to a collaborator are kept in \<open>pending\<close> until the
  collaborator invokes them.
\<close>

subsection \<open>JavaScript values and helpers\<close>

type_synonym chan_id = nat
type_synonym pool_id = nat
type_synonym conn_id = nat

text \<open>Arguments whose type the code tests with \<^verbatim>\<open>typeof\<close>.\<close>

datatype jsval = JUndefined | JNull | JBool bool | JNum int | JStr string

fun typeof :: "jsval \<Rightarrow> string" where
  "typeof JUndefined = ''undefined''"
| "typeof JNull = ''object''"
| "typeof (JBool b) = ''boolean''"
| "typeof (JNum n) = ''number''"
| "typeof (JStr s) = ''string''"

text \<open>Truthiness of an optional string property: absent and the empty string are falsy.\<close>

fun truthyS :: "string option \<Rightarrow> bool" where
  "truthyS None = False"
| "truthyS (Some s) = (s \<noteq> [])"

fun truthyB :: "bool option \<Rightarrow> bool" where
  "truthyB None = False"
| "truthyB (Some b) = b"

text \<open>Decimal rendering of a number, as string concatenation with \<^verbatim>\<open>+\<close> produces it.\<close>

definition digit_char :: "nat \<Rightarrow> char" where
  "digit_char d = ''0123456789'' ! d"

function string_of_nat :: "nat \<Rightarrow> string" where
  "string_of_nat n =
     (if n < 10 then [digit_char n] else string_of_nat (n div 10) @ [digit_char (n mod 10)])"
  by pat_completeness auto
termination
  by (relation "measure id") auto

declare string_of_nat.simps [simp del]

text \<open>\<^verbatim>\<open>null + ':' + x\<close> renders the null as the text \<^verbatim>\<open>null\<close>.\<close>

fun str_of_opt :: "string option \<Rightarrow> string" where
  "str_of_opt None = ''null''"
| "str_of_opt (Some s) = s"

text \<open>
  Reading a property of an object made by the literal \<^verbatim>\<open>{}\<close>: the object's own property if
  it has one, otherwise what \<^verbatim>\<open>Object.prototype\<close> has under that name (a function, or the
  prototype itself for \<^verbatim>\<open>__proto__\<close>; truthy in each case), otherwise \<^verbatim>\<open>undefined\<close>. A
  table made by \<^verbatim>\<open>Object.create(null)\<close> has own properties only and is read with
  \<open>map_of\<close>, as is a table read at one of its \<^verbatim>\<open>Object.keys\<close>. The keys are kept in
  insertion order, the order of \<^verbatim>\<open>Object.keys\<close> for keys that are not array indices.
\<close>

datatype 'a slot = Own 'a | Inherited | Absent

definition object_prototype_keys :: "string list" where
  "object_prototype_keys =
     [''constructor'', ''__defineGetter__'', ''__defineSetter__'', ''hasOwnProperty'',
      ''__lookupGetter__'', ''__lookupSetter__'', ''isPrototypeOf'', ''propertyIsEnumerable'',
      ''toString'', ''valueOf'', ''__proto__'', ''toLocaleString'']"

definition get_prop :: "(string \<times> 'a) list \<Rightarrow> string \<Rightarrow> 'a slot" where
  "get_prop obj key =
     (case map_of obj key of
        Some v \<Rightarrow> Own v
      | None \<Rightarrow> if key \<in> set object_prototype_keys then Inherited else Absent)"

subsection \<open>Errors\<close>

text \<open>
  \<^verbatim>\<open>assert(cond, message)\<close> throws an assertion error carrying the message; the three
  typed errors come from the \<^verbatim>\<open>errors\<close> module. \<open>TypeError\<close> is what JavaScript throws
  when a property of \<^verbatim>\<open>null\<close> is read or a value that is not a function is called.
\<close>

datatype error =
    AssertionError string
  | TopLevelRequestError
  | TopLevelRegisterError
  | InvalidHandlerForRegister "string option"
  | SocketClosedError string
  | TypeError

subsection \<open>Data model\<close>

text \<open>Request options: the properties of the options object that \<^verbatim>\<open>request\<close> reads.\<close>

record reqopts =
  service :: "string option"
  rServiceName :: "string option"
  rHost :: "string option"
  streamed :: "bool option"
  timeout :: "nat option"
  rTrace :: "bool option"

datatype handler =
    EndpointHandler string
  | TChannelServiceNameHandler chan_id
  | CustomHandler "string option"

text \<open>The \<^verbatim>\<open>type\<close> tag of a handler object; a custom handler may carry any tag or none.\<close>

fun handler_type :: "handler \<Rightarrow> string option" where
  "handler_type (EndpointHandler s) = Some ''tchannel.endpoint-handler''"
| "handler_type (TChannelServiceNameHandler c) = Some ''tchannel.service-name-handler''"
| "handler_type (CustomHandler t) = t"

datatype peer = PeerOf pool_id string | PeerObj nat

datatype peerspec = PeerStr string | PeerGiven peer

text \<open>Constructor options: the keys the constructor and \<^verbatim>\<open>makeSubChannel\<close> read.\<close>

record chan_options =
  oServiceName :: "string option"
  oHandler :: "handler option"
  oRequestDefaults :: "reqopts option"
  oTrace :: "bool option"
  oPeers :: "peerspec list option"

text \<open>The listening socket: \<^verbatim>\<open>address()\<close> is null until the bind has completed.\<close>

record server =
  address :: "nat option"

text \<open>An accepted socket.\<close>

record socket =
  sockId :: nat
  remoteAddress :: string
  remotePort :: nat

record channel =
  options :: chan_options
  requestDefaults :: reqopts
  host :: "string option"
  requestedPort :: "int option"
  hostPort :: "string option"
  serviceName :: string
  topChannel :: "chan_id option"
  subChannels :: "(string \<times> chan_id) list option"
  handler :: "handler option"
  peers :: pool_id
  listened :: bool
  listening :: bool
  destroyed :: bool
  tracer :: bool
  serverSocket :: "server option"
  serverConnections :: "(string \<times> conn_id) list option"

text \<open>
  Callback values. \<open>OnClose c k\<close> is the closure \<^verbatim>\<open>onClose\<close> created by the call of
  \<^verbatim>\<open>close\<close> on channel \<open>c\<close> whose \<^verbatim>\<open>callback\<close> argument is \<open>k\<close>;
  \<open>CloseServerSocket c k\<close> is the closure \<^verbatim>\<open>closeServerSocket\<close> of the same call.
\<close>

datatype callback =
    NotAFunction
  | UserFn nat
  | OnClose chan_id callback
  | CloseServerSocket chan_id callback

datatype req_obj =
    TChannelRequest chan_id reqopts
  | PeersRequest pool_id reqopts

datatype event =
    EvListening
  | EvConnection conn_id
  | EvRequest req_obj
  | EvError

datatype effect =
    LogError string
  | Emit chan_id event
  | NewConnection conn_id chan_id nat string
  | ConnOnSpan conn_id
  | ResetAll conn_id error
  | SockOnClose nat chan_id string
  | ConnClose conn_id callback
  | PeersClose pool_id callback
  | PeersAdd pool_id string
  | PeersAddPeer pool_id peer
  | PeersRequestCall pool_id reqopts
  | NewRequest chan_id reqopts
  | CreateServer chan_id
  | ServerListen chan_id int string callback
  | ServerOnce chan_id string callback
  | ServerClose chan_id
  | HandlerRegister chan_id string nat
  | CounterIncr chan_id
  | Called nat

text \<open>
  The store. \<open>counters c\<close> is the variable \<^verbatim>\<open>counter\<close> of the call of \<^verbatim>\<open>close\<close> on
  channel \<open>c\<close> (at most one call per channel gets past the assertion, because
  \<^verbatim>\<open>destroyed\<close> is never reset).
\<close>

record state =
  chans :: "chan_id \<Rightarrow> channel"
  nextChan :: nat
  nextPool :: nat
  nextConn :: nat
  counters :: "chan_id \<Rightarrow> int"
  pending :: "callback list"
  trace :: "effect list"

definition upd_chan :: "chan_id \<Rightarrow> (channel \<Rightarrow> channel) \<Rightarrow> state \<Rightarrow> state" where
  "upd_chan c f st = st\<lparr>chans := (chans st)(c := f (chans st c))\<rparr>"

definition emit :: "effect \<Rightarrow> state \<Rightarrow> state" where
  "emit e st = st\<lparr>trace := trace st @ [e]\<rparr>"

definition hand_over :: "callback \<Rightarrow> state \<Rightarrow> state" where
  "hand_over k st = st\<lparr>pending := pending st @ [k]\<rparr>"

subsection \<open>register\<close>

definition register :: "state \<Rightarrow> chan_id \<Rightarrow> string \<Rightarrow> nat \<Rightarrow> (error + unit) \<times> state" where
  "register st c name fn =
     (let handlerType = (case handler (chans st c) of None \<Rightarrow> None | Some h \<Rightarrow> handler_type h)
      in if handlerType = Some ''tchannel.endpoint-handler''
         then (Inr (), emit (HandlerRegister c name fn) st)
         else if handlerType = Some ''tchannel.service-name-handler''
         then (Inl TopLevelRegisterError, st)
         else (Inl (InvalidHandlerForRegister handlerType), st))"

subsection \<open>getServer and listen\<close>

definition getServer :: "state \<Rightarrow> chan_id \<Rightarrow> state" where
  "getServer st c =
     (case serverSocket (chans st c) of
        Some srv \<Rightarrow> st
      | None \<Rightarrow>
          emit (CreateServer c)
            (upd_chan c (\<lambda>ch. ch\<lparr>serverConnections := Some [],
                                 serverSocket := Some \<lparr>address = None\<rparr>\<rparr>) st))"

definition listen :: "state \<Rightarrow> chan_id \<Rightarrow> jsval \<Rightarrow> jsval \<Rightarrow> callback \<Rightarrow> (error + unit) \<times> state" where
  "listen st c port hst callback =
     (if listened (chans st c) then (Inl (AssertionError ''TChannel can only listen once''), st)
      else if typeof hst \<noteq> ''string''
      then (Inl (AssertionError ''TChannel requires host argument''), st)
      else if typeof port \<noteq> ''number''
      then (Inl (AssertionError ''TChannel must listen with numeric port''), st)
      else if hst = JStr ''0.0.0.0''
      then (Inl (AssertionError ''TChannel must listen with externally visible host''), st)
      else (case (port, hst) of
              (JNum p, JStr h) \<Rightarrow>
                (let st1 = upd_chan c (\<lambda>ch. ch\<lparr>listened := True, requestedPort := Some p,
                                                host := Some h\<rparr>) st;
                     st2 = getServer st1 c
                 in (Inr (), emit (ServerListen c p h callback) st2))
            | _ \<Rightarrow> (Inl TypeError, st)))"

subsection \<open>The constructor\<close>

text \<open>\<^verbatim>\<open>extend(a, b)\<close> copies the properties of \<open>a\<close> and then those of \<open>b\<close>: \<open>b\<close> wins.\<close>

fun over :: "'a option \<Rightarrow> 'a option \<Rightarrow> 'a option" where
  "over a None = a"
| "over a (Some v) = Some v"

definition empty_reqopts :: reqopts where
  "empty_reqopts = \<lparr>service = None, rServiceName = None, rHost = None, streamed = None,
                     timeout = None, rTrace = None\<rparr>"

definition extend_reqopts :: "reqopts \<Rightarrow> reqopts \<Rightarrow> reqopts" where
  "extend_reqopts a b =
     \<lparr>service = over (service a) (service b),
      rServiceName = over (rServiceName a) (rServiceName b),
      rHost = over (rHost a) (rHost b),
      streamed = over (streamed a) (streamed b),
      timeout = over (timeout a) (timeout b),
      rTrace = over (rTrace a) (rTrace b)\<rparr>"

definition empty_options :: chan_options where
  "empty_options = \<lparr>oServiceName = None, oHandler = None, oRequestDefaults = None,
                     oTrace = None, oPeers = None\<rparr>"

definition extend_options :: "chan_options \<Rightarrow> chan_options \<Rightarrow> chan_options" where
  "extend_options a b =
     \<lparr>oServiceName = over (oServiceName a) (oServiceName b),
      oHandler = over (oHandler a) (oHandler b),
      oRequestDefaults = over (oRequestDefaults a) (oRequestDefaults b),
      oTrace = over (oTrace a) (oTrace b),
      oPeers = over (oPeers a) (oPeers b)\<rparr>"

text \<open>
  \<^verbatim>\<open>TChannel(options)\<close>. The new object takes the next free identifier. The constant
  \<^verbatim>\<open>TChannelRequest.defaultTimeout\<close> is defined in \<^verbatim>\<open>request.js\<close> and is a parameter here.
  The option keys that no method of this file reads (\<^verbatim>\<open>timeoutCheckInterval\<close>,
  \<^verbatim>\<open>timeoutFuzz\<close>, \<^verbatim>\<open>processName\<close>, \<^verbatim>\<open>logger\<close>, \<^verbatim>\<open>random\<close>, \<^verbatim>\<open>timers\<close>) are left out.

  Modelled from the spec: \<^verbatim>\<open>TChannelPeers(self, self.options)\<close> is the constructor of
  \<^verbatim>\<open>peers.js\<close>, which is not in the source directory; the interface table of the spec lists
  it as \<^verbatim>\<open>create(channel, options)\<close>, returning a pool object. The call creates a pool:
  it takes the next free pool identifier.
\<close>

definition TChannel :: "nat \<Rightarrow> state \<Rightarrow> chan_options option \<Rightarrow> chan_id \<times> state" where
  "TChannel defaultTimeout st options0 =
     (let self = nextChan st;
          opts0 = extend_options empty_options
                    (case options0 of None \<Rightarrow> empty_options | Some o1 \<Rightarrow> o1);
          rd = extend_reqopts (empty_reqopts\<lparr>timeout := Some defaultTimeout\<rparr>)
                 (case oRequestDefaults opts0 of None \<Rightarrow> empty_reqopts | Some r \<Rightarrow> r);
          sn = (case oServiceName opts0 of
                  None \<Rightarrow> []
                | Some s \<Rightarrow> s);
          opts1 = (if truthyS (oServiceName opts0) then opts0\<lparr>oServiceName := None\<rparr> else opts0);
          h = (case oHandler opts1 of
                 None \<Rightarrow> (if sn = [] then TChannelServiceNameHandler self else EndpointHandler sn)
               | Some h1 \<Rightarrow> h1);
          opts2 = opts1\<lparr>oHandler := None\<rparr>;
          pool = nextPool st;
          rd1 = (if truthyB (oTrace opts2) \<and> rTrace rd \<noteq> Some False
                 then rd\<lparr>rTrace := Some True\<rparr> else rd)
      in (self,
          st\<lparr>chans := (chans st)(self :=
                \<lparr>options = opts2, requestDefaults = rd1, host = None, requestedPort = None,
                 hostPort = None, serviceName = sn, topChannel = None,
                 subChannels = (if sn \<noteq> [] then None else Some []),
                 handler = Some h, peers = pool,
                 listened = False, listening = False, destroyed = False,
                 tracer = truthyB (oTrace opts2),
                 serverSocket = None, serverConnections = None\<rparr>),
              nextChan := self + 1,
              nextPool := pool + 1\<rparr>))"

subsection \<open>makeSubChannel\<close>

definition addOnePeer :: "chan_id \<Rightarrow> chan_id \<Rightarrow> peerspec \<Rightarrow> state \<Rightarrow> state" where
  "addOnePeer self chan p st =
     (case p of
        PeerStr s \<Rightarrow>
          emit (PeersAddPeer (peers (chans st chan)) (PeerOf (peers (chans st self)) s))
            (emit (PeersAdd (peers (chans st self)) s) st)
      | PeerGiven q \<Rightarrow> emit (PeersAddPeer (peers (chans st chan)) q) st)"

definition makeSubChannel ::
  "nat \<Rightarrow> state \<Rightarrow> chan_id \<Rightarrow> chan_options option \<Rightarrow> (error + chan_id) \<times> state" where
  "makeSubChannel defaultTimeout st self options0 =
     (let opts0 = (case options0 of None \<Rightarrow> empty_options | Some o1 \<Rightarrow> o1)
      in if serviceName (chans st self) \<noteq> []
         then (Inl (AssertionError ''arbitrary-depth sub channels are unsupported''), st)
         else if \<not> truthyS (oServiceName opts0)
         then (Inl (AssertionError ''must specify serviceName''), st)
         else (case (subChannels (chans st self), oServiceName opts0) of
                 (Some subs, Some name) \<Rightarrow>
                   if get_prop subs name \<noteq> Absent
                   then (Inl (AssertionError ''duplicate sub channel creation''), st)
                   else
                     (let opts = extend_options (options (chans st self))
                                   (opts0\<lparr>oPeers := None\<rparr>);
                          (chan, st1) = TChannel defaultTimeout st (Some opts);
                          st2 = upd_chan chan (\<lambda>ch. ch\<lparr>topChannel := Some self\<rparr>) st1;
                          st3 = (case oPeers opts0 of
                                   None \<Rightarrow> st2
                                 | Some ps \<Rightarrow> fold (addOnePeer self chan) ps st2);
                          st4 = upd_chan self
                                  (\<lambda>ch. ch\<lparr>subChannels :=
                                     map_option (AList.update (serviceName (chans st3 chan)) chan)
                                       (subChannels ch)\<rparr>) st3;
                          st5 = (if truthyS (hostPort (chans st4 self))
                                 then upd_chan chan
                                        (\<lambda>ch. ch\<lparr>hostPort := hostPort (chans st4 self)\<rparr>) st4
                                 else st4)
                      in (Inr chan, st5))
               | _ \<Rightarrow> (Inl TypeError, st)))"

subsection \<open>The connection acceptor\<close>

definition onSocketClose :: "state \<Rightarrow> chan_id \<Rightarrow> string \<Rightarrow> (error + unit) \<times> state" where
  "onSocketClose st c remoteAddr =
     (case serverConnections (chans st c) of
        None \<Rightarrow> (Inl TypeError, st)
      | Some tbl \<Rightarrow>
          (Inr (), upd_chan c (\<lambda>ch. ch\<lparr>serverConnections :=
                                        Some (AList.delete remoteAddr tbl)\<rparr>) st))"

definition onServerSocketConnection :: "state \<Rightarrow> chan_id \<Rightarrow> socket \<Rightarrow> (error + unit) \<times> state" where
  "onServerSocketConnection st c sock =
     (if destroyed (chans st c)
      then (Inr (), emit (LogError ''got incoming socket whilst destroyed'') st)
      else
        (let remoteAddr = remoteAddress sock @ '':'' @ string_of_nat (remotePort sock);
             conn = nextConn st;
             st1 = emit (ConnOnSpan conn)
                     (emit (NewConnection conn c (sockId sock) remoteAddr)
                        (st\<lparr>nextConn := conn + 1\<rparr>))
         in case serverConnections (chans st1 c) of
              None \<Rightarrow> (Inl TypeError, st1)
            | Some tbl \<Rightarrow>
                (let st2 = (case map_of tbl remoteAddr of
                              None \<Rightarrow> st1
                            | Some oldConn \<Rightarrow>
                                upd_chan c (\<lambda>ch. ch\<lparr>serverConnections :=
                                                    Some (AList.delete remoteAddr tbl)\<rparr>)
                                  (emit (ResetAll oldConn
                                     (SocketClosedError ''duplicate remoteAddr incoming conn''))
                                     st1));
                     st3 = emit (SockOnClose (sockId sock) c remoteAddr) st2;
                     st4 = upd_chan c (\<lambda>ch. ch\<lparr>serverConnections :=
                                map_option (AList.update remoteAddr conn) (serverConnections ch)\<rparr>)
                             st3
                 in (Inr (), emit (Emit c (EvConnection conn)) st4))))"

text \<open>
  The socket's side of \<^verbatim>\<open>sock.on('close', onSocketClose)\<close>: when socket \<open>sid\<close> closes,
  every handler that was installed on it runs, in the order of installation.
\<close>

definition run_handler :: "nat \<Rightarrow> effect \<Rightarrow> state \<Rightarrow> state" where
  "run_handler sid e s =
     (case e of
        SockOnClose sid1 c remoteAddr \<Rightarrow>
          if sid1 = sid then snd (onSocketClose s c remoteAddr) else s
      | _ \<Rightarrow> s)"

definition socket_closes :: "nat \<Rightarrow> state \<Rightarrow> state" where
  "socket_closes sid st = fold (run_handler sid) (trace st) st"

definition propagate :: "chan_id \<Rightarrow> (string \<times> chan_id) list \<Rightarrow> string \<Rightarrow> state \<Rightarrow> state" where
  "propagate c subs name st =
     (case map_of subs name of
        None \<Rightarrow> st
      | Some chan \<Rightarrow>
          if \<not> truthyS (hostPort (chans st chan))
          then upd_chan chan (\<lambda>ch. ch\<lparr>hostPort := hostPort (chans st c)\<rparr>) st
          else st)"

definition onServerSocketListening :: "state \<Rightarrow> chan_id \<Rightarrow> (error + unit) \<times> state" where
  "onServerSocketListening st c =
     (case serverSocket (chans st c) of
        None \<Rightarrow> (Inl TypeError, st)
      | Some srv \<Rightarrow>
          (case address srv of
             None \<Rightarrow> (Inl TypeError, st)
           | Some port \<Rightarrow>
               if destroyed (chans st c)
               then (Inr (), emit (LogError ''got serverSocket listen whilst destroyed'') st)
               else
                 (let st1 = upd_chan c
                              (\<lambda>ch. ch\<lparr>hostPort := Some (str_of_opt (host ch) @ '':'' @
                                                            string_of_nat port),
                                       listening := True\<rparr>) st;
                      st2 = (case subChannels (chans st1 c) of
                               None \<Rightarrow> st1
                             | Some subs \<Rightarrow> fold (propagate c subs) (map fst subs) st1)
                  in (Inr (), emit (Emit c EvListening) st2))))"

subsection \<open>request\<close>

text \<open>
  The recursion of \<^verbatim>\<open>request\<close> into a sub-channel follows object references, so the
  model takes fuel; \<open>None\<close> means that the fuel ran out. When the table of sub-channels
  has no own entry for the service but \<^verbatim>\<open>Object.prototype\<close> has a property of that name,
  the condition is truthy and the call of \<^verbatim>\<open>request\<close> on the inherited value throws a
  \<^verbatim>\<open>TypeError\<close>.
\<close>

text \<open>The options after the two copy loops and the aliasing of \<^verbatim>\<open>serviceName\<close>.\<close>

definition merged :: "channel \<Rightarrow> reqopts option \<Rightarrow> reqopts" where
  "merged ch options0 =
     (let opts0 = extend_reqopts (extend_reqopts empty_reqopts (requestDefaults ch))
                    (case options0 of None \<Rightarrow> empty_reqopts | Some o1 \<Rightarrow> o1)
      in if \<not> truthyS (service opts0) \<and> truthyS (rServiceName opts0)
         then opts0\<lparr>service := rServiceName opts0\<rparr> else opts0)"

text \<open>
  The value of \<^verbatim>\<open>opts.service && self.subChannels && self.subChannels[opts.service]\<close>:
  \<open>Absent\<close> stands for every falsy outcome.
\<close>

definition subChannelFor :: "channel \<Rightarrow> reqopts \<Rightarrow> chan_id slot" where
  "subChannelFor ch opts =
     (if truthyS (service opts)
      then (case (service opts, subChannels ch) of
              (Some svc, Some subs) \<Rightarrow> get_prop subs svc
            | _ \<Rightarrow> Absent)
      else Absent)"

primrec request ::
  "nat \<Rightarrow> state \<Rightarrow> chan_id \<Rightarrow> reqopts option \<Rightarrow> ((error + req_obj) \<times> state) option" where
  "request 0 st c options0 = None"
| "request (Suc n) st c options0 =
     (if destroyed (chans st c)
      then Some (Inl (AssertionError ''cannot request() to destroyed tchannel''), st)
      else
        (let opts = merged (chans st c) options0
         in if serviceName (chans st c) = [] \<and> \<not> truthyS (rHost opts)
            then (case subChannelFor (chans st c) opts of
                    Own sub \<Rightarrow> request n st sub (Some opts)
                  | Inherited \<Rightarrow> Some (Inl TypeError, st)
                  | Absent \<Rightarrow> Some (Inl TopLevelRequestError, st))
            else if truthyS (rHost opts) \<or> truthyB (streamed opts)
            then (let req = PeersRequest (peers (chans st c)) opts
                  in Some (Inr req,
                           emit (Emit c (EvRequest req))
                             (emit (PeersRequestCall (peers (chans st c)) opts) st)))
            else (let req = TChannelRequest c opts
                  in Some (Inr req,
                           emit (Emit c (EvRequest req)) (emit (NewRequest c opts) st)))))"

subsection \<open>close\<close>

definition incr :: "chan_id \<Rightarrow> state \<Rightarrow> state" where
  "incr c st = emit (CounterIncr c) (st\<lparr>counters := (counters st)(c := counters st c + 1)\<rparr>)"

text \<open>\<^verbatim>\<open>closeServerSocket\<close>: register \<^verbatim>\<open>onClose\<close> for the socket's close event, then close it.\<close>

definition closeServerSocket :: "chan_id \<Rightarrow> callback \<Rightarrow> state \<Rightarrow> state" where
  "closeServerSocket c k st =
     emit (ServerClose c) (hand_over (OnClose c k) (emit (ServerOnce c ''close'' (OnClose c k)) st))"

text \<open>
  Invoking a callback value. For \<open>OnClose c k\<close> this is the body of \<^verbatim>\<open>onClose\<close>: decrement
  the counter of that call of \<^verbatim>\<open>close\<close>, and at zero or below log a negative counter and
  call \<open>k\<close> if it is a function.
\<close>

fun is_function :: "callback \<Rightarrow> bool" where
  "is_function NotAFunction = False"
| "is_function k = True"

fun call :: "callback \<Rightarrow> state \<Rightarrow> state" where
  "call NotAFunction st = st"
| "call (UserFn f) st = emit (Called f) st"
| "call (CloseServerSocket c k) st = closeServerSocket c k st"
| "call (OnClose c k) st =
     (let n = counters st c - 1;
          st1 = st\<lparr>counters := (counters st)(c := n)\<rparr>
      in if n \<le> 0
         then (let st2 = (if n < 0
                          then emit (LogError ''closed more channel sockets than expected'') st1
                          else st1)
               in if is_function k then call k st2 else st2)
         else st1)"

definition closeServer :: "chan_id \<Rightarrow> callback \<Rightarrow> state \<Rightarrow> state" where
  "closeServer c k st =
     (case serverSocket (chans st c) of
        None \<Rightarrow> st
      | Some srv \<Rightarrow>
          (let st1 = incr c st
           in if address srv \<noteq> None
              then closeServerSocket c k st1
              else hand_over (CloseServerSocket c k)
                     (emit (ServerOnce c ''listening'' (CloseServerSocket c k)) st1)))"

definition closeConn :: "chan_id \<Rightarrow> callback \<Rightarrow> string \<Rightarrow> state \<Rightarrow> state" where
  "closeConn c k key st =
     (let st1 = incr c st
      in case serverConnections (chans st1 c) of
           None \<Rightarrow> st1
         | Some tbl \<Rightarrow>
             (case map_of tbl key of
                None \<Rightarrow> st1
              | Some incomingConn \<Rightarrow>
                  hand_over (OnClose c k) (emit (ConnClose incomingConn (OnClose c k)) st1)))"

definition closeConns :: "chan_id \<Rightarrow> callback \<Rightarrow> state \<Rightarrow> state" where
  "closeConns c k st =
     (case serverConnections (chans st c) of
        None \<Rightarrow> st
      | Some tbl \<Rightarrow> fold (closeConn c k) (map fst tbl) st)"

definition closePeers :: "chan_id \<Rightarrow> callback \<Rightarrow> state \<Rightarrow> state" where
  "closePeers c k st =
     hand_over (OnClose c k) (emit (PeersClose (peers (chans st c)) (OnClose c k)) st)"

fun fold_opt :: "('a \<Rightarrow> 's \<Rightarrow> 's option) \<Rightarrow> 'a list \<Rightarrow> 's \<Rightarrow> 's option" where
  "fold_opt f [] s = Some s"
| "fold_opt f (x # xs) s = (case f x s of None \<Rightarrow> None | Some s1 \<Rightarrow> fold_opt f xs s1)"

text \<open>
  One round of the \<^verbatim>\<open>forEach\<close> over the sub-channels; \<open>cl\<close> is \<^verbatim>\<open>close\<close> with the
  remaining fuel. A sub-channel that is not destroyed cannot fail the assertion of
  \<^verbatim>\<open>close\<close>, so only its store is kept.
\<close>

definition closeSub ::
  "(state \<Rightarrow> chan_id \<Rightarrow> callback \<Rightarrow> ((error + unit) \<times> state) option) \<Rightarrow>
   chan_id \<Rightarrow> callback \<Rightarrow> (string \<times> chan_id) list \<Rightarrow> string \<Rightarrow> state \<Rightarrow> state option" where
  "closeSub cl c k subs name st =
     (case map_of subs name of
        None \<Rightarrow> Some st
      | Some svcchan \<Rightarrow>
          if \<not> destroyed (chans st svcchan)
          then map_option snd (cl (incr c st) svcchan (OnClose c k))
          else Some st)"

text \<open>The first statements of \<^verbatim>\<open>close\<close> after the assertion.\<close>

definition beginClose :: "chan_id \<Rightarrow> state \<Rightarrow> state" where
  "beginClose c st =
     (let st1 = upd_chan c (\<lambda>ch. ch\<lparr>destroyed := True\<rparr>) st
      in st1\<lparr>counters := (counters st1)(c := 1)\<rparr>)"

primrec close ::
  "nat \<Rightarrow> state \<Rightarrow> chan_id \<Rightarrow> callback \<Rightarrow> ((error + unit) \<times> state) option" where
  "close 0 st c callback = None"
| "close (Suc n) st c callback =
     (if destroyed (chans st c) then Some (Inl (AssertionError ''TChannel double close''), st)
      else
        (let st2 = beginClose c st;
             st3 = closeServer c callback st2;
             st4 = closeConns c callback st3
         in case (case subChannels (chans st4 c) of
                    None \<Rightarrow> Some st4
                  | Some subs \<Rightarrow> fold_opt (closeSub (close n) c callback subs) (map fst subs) st4) of
              None \<Rightarrow> None
            | Some st5 \<Rightarrow> Some (Inr (), closePeers c callback st5)))"

section \<open>Descriptions of what close leaves behind\<close>

text \<open>
  A sub-channel has no sub-channels of its own, so its \<^verbatim>\<open>close\<close> runs the three phases
  on its own resources; \<open>closeKid\<close> is one round of the \<^verbatim>\<open>forEach\<close> for a sub-channel
  that is not destroyed, and \<open>closeTop\<close> the whole call on a channel whose sub-channels
  are \<open>kids\<close>. The lemmas below show that \<^verbatim>\<open>close\<close> computes exactly these.
\<close>

definition closeLeaf :: "chan_id \<Rightarrow> callback \<Rightarrow> state \<Rightarrow> state" where
  "closeLeaf c k st = closePeers c k (closeConns c k (closeServer c k (beginClose c st)))"

definition closeKid :: "chan_id \<Rightarrow> callback \<Rightarrow> chan_id \<Rightarrow> state \<Rightarrow> state" where
  "closeKid c k b st = closeLeaf b (OnClose c k) (incr c st)"

definition closeSubLeaf ::
  "chan_id \<Rightarrow> callback \<Rightarrow> (string \<times> chan_id) list \<Rightarrow> string \<Rightarrow> state \<Rightarrow> state" where
  "closeSubLeaf c k subs name st =
     (case map_of subs name of
        None \<Rightarrow> st
      | Some b \<Rightarrow> if \<not> destroyed (chans st b) then closeKid c k b st else st)"

text \<open>The sub-channels that \<^verbatim>\<open>close\<close> closes: those that are not destroyed, in key order.\<close>

definition kids :: "state \<Rightarrow> chan_id \<Rightarrow> chan_id list" where
  "kids st c =
     (case subChannels (chans st c) of
        None \<Rightarrow> []
      | Some subs \<Rightarrow> filter (\<lambda>b. \<not> destroyed (chans st b)) (map snd subs))"

definition closeTop :: "chan_id \<Rightarrow> callback \<Rightarrow> state \<Rightarrow> state" where
  "closeTop c k st =
     closePeers c k
       (fold (closeKid c k) (kids st c) (closeConns c k (closeServer c k (beginClose c st))))"

text \<open>
  The trace and the handlers that the call of \<^verbatim>\<open>close\<close> on channel \<open>c\<close> with callback
  \<open>k\<close> produces for the listening socket, for the inbound connections, and for a
  channel without sub-channels as a whole.
\<close>

definition serverTrace :: "chan_id \<Rightarrow> callback \<Rightarrow> channel \<Rightarrow> effect list" where
  "serverTrace c k ch =
     (case serverSocket ch of
        None \<Rightarrow> []
      | Some srv \<Rightarrow>
          CounterIncr c #
          (if address srv \<noteq> None
           then [ServerOnce c ''close'' (OnClose c k), ServerClose c]
           else [ServerOnce c ''listening'' (CloseServerSocket c k)]))"

definition serverPending :: "chan_id \<Rightarrow> callback \<Rightarrow> channel \<Rightarrow> callback list" where
  "serverPending c k ch =
     (case serverSocket ch of
        None \<Rightarrow> []
      | Some srv \<Rightarrow> [if address srv \<noteq> None then OnClose c k else CloseServerSocket c k])"

definition connsTrace :: "chan_id \<Rightarrow> callback \<Rightarrow> channel \<Rightarrow> effect list" where
  "connsTrace c k ch =
     (case serverConnections ch of
        None \<Rightarrow> []
      | Some tbl \<Rightarrow>
          concat (map (\<lambda>(key, conn). [CounterIncr c, ConnClose conn (OnClose c k)]) tbl))"

definition connsPending :: "chan_id \<Rightarrow> callback \<Rightarrow> channel \<Rightarrow> callback list" where
  "connsPending c k ch =
     (case serverConnections ch of
        None \<Rightarrow> []
      | Some tbl \<Rightarrow> replicate (length tbl) (OnClose c k))"

definition nServer :: "channel \<Rightarrow> nat" where
  "nServer ch = (case serverSocket ch of None \<Rightarrow> 0 | Some srv \<Rightarrow> 1)"

definition nConns :: "channel \<Rightarrow> nat" where
  "nConns ch = (case serverConnections ch of None \<Rightarrow> 0 | Some tbl \<Rightarrow> length tbl)"

definition own :: "channel \<Rightarrow> int" where
  "own ch = 1 + int (nServer ch) + int (nConns ch)"

definition leafTrace :: "chan_id \<Rightarrow> callback \<Rightarrow> channel \<Rightarrow> effect list" where
  "leafTrace c k ch =
     serverTrace c k ch @ connsTrace c k ch @ [PeersClose (peers ch) (OnClose c k)]"

definition leafPending :: "chan_id \<Rightarrow> callback \<Rightarrow> channel \<Rightarrow> callback list" where
  "leafPending c k ch = serverPending c k ch @ connsPending c k ch @ [OnClose c k]"

definition kidsTrace :: "chan_id \<Rightarrow> callback \<Rightarrow> state \<Rightarrow> chan_id list \<Rightarrow> effect list" where
  "kidsTrace c k st ks =
     concat (map (\<lambda>b. CounterIncr c # leafTrace b (OnClose c k) (chans st b)) ks)"

definition kidsPending :: "chan_id \<Rightarrow> callback \<Rightarrow> state \<Rightarrow> chan_id list \<Rightarrow> callback list" where
  "kidsPending c k st ks = concat (map (\<lambda>b. leafPending b (OnClose c k) (chans st b)) ks)"

text \<open>
  Well-formedness of a channel and its sub-channels. A JavaScript object has one value
  per key; the constructor gives a sub-channel no sub-channel table, and
  \<^verbatim>\<open>makeSubChannel\<close> registers a new object under each name.
\<close>

definition keys_ok :: "channel \<Rightarrow> bool" where
  "keys_ok ch = (case serverConnections ch of None \<Rightarrow> True | Some tbl \<Rightarrow> distinct (map fst tbl))"

definition wf_hier :: "state \<Rightarrow> chan_id \<Rightarrow> bool" where
  "wf_hier st c =
     (keys_ok (chans st c) \<and>
      (case subChannels (chans st c) of
         None \<Rightarrow> True
       | Some subs \<Rightarrow>
           distinct (map fst subs) \<and> distinct (map snd subs) \<and> c \<notin> set (map snd subs) \<and>
           (\<forall>b \<in> set (map snd subs). subChannels (chans st b) = None \<and> keys_ok (chans st b))))"

text \<open>The store after a successful \<^verbatim>\<open>makeSubChannel\<close>.\<close>

definition made :: "nat \<Rightarrow> state \<Rightarrow> chan_id \<Rightarrow> chan_options \<Rightarrow> state" where
  "made dT st self opts0 =
     (let chan = nextChan st;
          st1 = snd (TChannel dT st (Some (extend_options (options (chans st self))
                                             (opts0\<lparr>oPeers := None\<rparr>))));
          st2 = upd_chan chan (\<lambda>ch. ch\<lparr>topChannel := Some self\<rparr>) st1;
          st3 = (case oPeers opts0 of
                   None \<Rightarrow> st2
                 | Some ps \<Rightarrow> fold (addOnePeer self chan) ps st2);
          st4 = upd_chan self
                  (\<lambda>ch. ch\<lparr>subChannels :=
                     map_option (AList.update (serviceName (chans st3 chan)) chan)
                       (subChannels ch)\<rparr>) st3
      in (if truthyS (hostPort (chans st4 self))
          then upd_chan chan (\<lambda>ch. ch\<lparr>hostPort := hostPort (chans st4 self)\<rparr>) st4
          else st4))"

text \<open>The effects of \<^verbatim>\<open>makeSubChannel\<close> for the entries of \<^verbatim>\<open>options.peers\<close>.\<close>

definition peerEffects :: "pool_id \<Rightarrow> pool_id \<Rightarrow> peerspec \<Rightarrow> effect list" where
  "peerEffects ptop psub p =
     (case p of
        PeerStr s \<Rightarrow> [PeersAdd ptop s, PeersAddPeer psub (PeerOf ptop s)]
      | PeerGiven q \<Rightarrow> [PeersAddPeer psub q])"

definition has_table :: "chan_id \<Rightarrow> state \<Rightarrow> bool" where
  "has_table c s = (serverConnections (chans s c) \<noteq> None)"

definition lacks :: "chan_id \<Rightarrow> string \<Rightarrow> state \<Rightarrow> bool" where
  "lacks c a s = (\<exists>t. serverConnections (chans s c) = Some t \<and> map_of t a = None)"

section \<open>Completion of the closes that are in flight\<close>

text \<open>
  The collaborators complete in any order: \<open>fire i\<close> lets the collaborator holding the
  \<open>i\<close>-th pending handler invoke it (once), and \<open>run\<close> does so along a schedule;
  \<open>None\<close> is a schedule that names a handler that is not there.
\<close>

definition fire :: "nat \<Rightarrow> state \<Rightarrow> state option" where
  "fire i st =
     (if i < length (pending st)
      then Some (call (pending st ! i)
                   (st\<lparr>pending := take i (pending st) @ drop (Suc i) (pending st)\<rparr>))
      else None)"

fun run :: "nat list \<Rightarrow> state \<Rightarrow> state option" where
  "run [] st = Some st"
| "run (i # sched) st = (case fire i st of None \<Rightarrow> None | Some st1 \<Rightarrow> run sched st1)"

text \<open>The channel whose counter a handler decrements, and the channels of all the
  \<^verbatim>\<open>close\<close> calls a handler can reach.\<close>

fun target :: "callback \<Rightarrow> chan_id option" where
  "target (OnClose a k) = Some a"
| "target (CloseServerSocket a k) = Some a"
| "target k = None"

fun chain :: "callback \<Rightarrow> chan_id list" where
  "chain (OnClose a k) = a # chain k"
| "chain (CloseServerSocket a k) = a # chain k"
| "chain k = []"

text \<open>The caller's function that a handler ends up calling.\<close>

fun user_fn :: "callback \<Rightarrow> nat option" where
  "user_fn (UserFn f) = Some f"
| "user_fn NotAFunction = None"
| "user_fn (OnClose a k) = user_fn k"
| "user_fn (CloseServerSocket a k) = user_fn k"

text \<open>How often the function \<open>f\<close> has been called, and the completions it still waits for.\<close>

definition calls :: "nat \<Rightarrow> state \<Rightarrow> nat" where
  "calls f st = length (filter (\<lambda>e. e = Called f) (trace st))"

definition awaiting :: "nat \<Rightarrow> state \<Rightarrow> callback list" where
  "awaiting f st = filter (\<lambda>x. user_fn x = Some f) (pending st)"

definition cnt :: "chan_id \<Rightarrow> callback list \<Rightarrow> nat" where
  "cnt a ps = length (filter (\<lambda>x. target x = Some a) ps)"

text \<open>
  The invariant of the join: the handlers of the close of \<open>r\<close> and of its sub-channels
  \<open>K\<close> (\<open>mine\<close>), the handlers of other closes (\<open>foreign\<close>), and the counters, which
  count the handlers and the sub-channels that are still closing.
\<close>

definition mine :: "chan_id \<Rightarrow> nat \<Rightarrow> chan_id set \<Rightarrow> callback \<Rightarrow> bool" where
  "mine r f K x =
     (x = OnClose r (UserFn f) \<or> x = CloseServerSocket r (UserFn f) \<or>
      (\<exists>b \<in> K. x = OnClose b (OnClose r (UserFn f)) \<or>
                x = CloseServerSocket b (OnClose r (UserFn f))))"

definition foreign :: "chan_id \<Rightarrow> nat \<Rightarrow> chan_id set \<Rightarrow> callback \<Rightarrow> bool" where
  "foreign r f K x =
     (r \<notin> set (chain x) \<and> (\<forall>b \<in> K. b \<notin> set (chain x)) \<and> user_fn x \<noteq> Some f)"

definition joined :: "chan_id \<Rightarrow> nat \<Rightarrow> chan_id set \<Rightarrow> nat \<Rightarrow> state \<Rightarrow> bool" where
  "joined r f K n0 st =
     (finite K \<and> r \<notin> K \<and>
      (\<forall>x \<in> set (pending st). mine r f K x \<or> foreign r f K x) \<and>
      (\<forall>b \<in> K. counters st b = int (cnt b (pending st))) \<and>
      counters st r = int (cnt r (pending st)) + int (card {b \<in> K. 0 < cnt b (pending st)}) \<and>
      calls f st = n0 + (if counters st r \<le> 0 then 1 else 0))"

section \<open>Example stores\<close>

text \<open>
  A top channel with the sub-channel \<^verbatim>\<open>svc\<close>, listening on 127.0.0.1 with the bound port
  4040, which accepts two sockets from the same remote address; and a channel with a
  handler of its own.
\<close>

definition blank_channel :: channel where
  "blank_channel =
     \<lparr>options = empty_options, requestDefaults = empty_reqopts, host = None,
      requestedPort = None, hostPort = None, serviceName = [], topChannel = None,
      subChannels = None, handler = None, peers = 0,
      listened = False, listening = False, destroyed = False, tracer = False,
      serverSocket = None, serverConnections = None\<rparr>"

definition empty_state :: state where
  "empty_state =
     \<lparr>chans = (\<lambda>c. blank_channel), nextChan = 0, nextPool = 0, nextConn = 0,
      counters = (\<lambda>c. 0), pending = [], trace = []\<rparr>"

definition ex_top :: state where
  "ex_top = snd (TChannel 100 empty_state None)"

definition ex_sub_options :: chan_options where
  "ex_sub_options =
     empty_options\<lparr>oServiceName := Some ''svc'', oPeers := Some [PeerStr ''10.0.0.9:4040'']\<rparr>"

definition ex_sub :: state where
  "ex_sub = snd (makeSubChannel 100 ex_top 0 (Some ex_sub_options))"

definition ex_listened :: state where
  "ex_listened = snd (listen ex_sub 0 (JNum 0) (JStr ''127.0.0.1'') (UserFn 1))"

text \<open>The bind completes: the socket has an address.\<close>

definition ex_bound :: state where
  "ex_bound = upd_chan 0 (\<lambda>ch. ch\<lparr>serverSocket := Some \<lparr>address = Some 4040\<rparr>\<rparr>) ex_listened"

definition ex_listening :: state where
  "ex_listening = snd (onServerSocketListening ex_bound 0)"

definition ex_sock1 :: socket where
  "ex_sock1 = \<lparr>sockId = 1, remoteAddress = ''10.0.0.1'', remotePort = 5000\<rparr>"

definition ex_sock2 :: socket where
  "ex_sock2 = \<lparr>sockId = 2, remoteAddress = ''10.0.0.1'', remotePort = 5000\<rparr>"

definition ex_conn1 :: state where
  "ex_conn1 = snd (onServerSocketConnection ex_listening 0 ex_sock1)"

definition ex_conn2 :: state where
  "ex_conn2 = snd (onServerSocketConnection ex_conn1 0 ex_sock2)"

definition ex_closed :: state where
  "ex_closed = closeTop 0 (UserFn 9) ex_conn2"

text \<open>The bare top channel after \<^verbatim>\<open>close\<close>.\<close>

definition ex_top_closed :: state where
  "ex_top_closed =
     (case close 1 ex_top 0 (UserFn 9) of Some (r, s) \<Rightarrow> s | None \<Rightarrow> ex_top)"

text \<open>The channel is closed after the bind has completed and before the event arrives.\<close>

definition ex_bound_closed :: state where
  "ex_bound_closed = closeTop 0 (UserFn 9) ex_bound"

definition ex_late_options :: chan_options where
  "ex_late_options = empty_options\<lparr>oServiceName := Some ''late''\<rparr>"

text \<open>
  After the close of the top channel the completions arrive in this order: the pool of
  the top channel, the listening socket, the pool of \<^verbatim>\<open>late\<close>, the pool of \<^verbatim>\<open>svc\<close>;
  the connection is left for last.
\<close>

definition ex_two :: state where
  "ex_two = snd (makeSubChannel 100 ex_conn2 0 (Some ex_late_options))"

text \<open>The sub-channel \<^verbatim>\<open>late\<close> is closed on its own; its pool has not completed yet.\<close>

definition ex_two_closing :: state where
  "ex_two_closing =
     (case close 1 ex_two 2 (UserFn 5) of Some (r, s) \<Rightarrow> s | None \<Rightarrow> ex_two)"

definition ex_schedule :: "nat list" where
  "ex_schedule = [4, 1, 0, 1]"

definition ex_custom :: state where
  "ex_custom =
     snd (TChannel 100 empty_state
            (Some (empty_options\<lparr>oHandler := Some (CustomHandler (Some ''relay''))\<rparr>)))"

section \<open>The stores that the operations produce\<close>

text \<open>
  The invariant of the store: every channel that has been constructed has one entry per
  key in its tables, and the sub-channels registered on it are distinct channels that
  have been constructed and have no table of sub-channels themselves.
\<close>

definition wf_store :: "state \<Rightarrow> bool" where
  "wf_store st =
     (\<forall>c < nextChan st.
        keys_ok (chans st c) \<and>
        (case subChannels (chans st c) of
           None \<Rightarrow> True
         | Some subs \<Rightarrow>
             distinct (map fst subs) \<and> distinct (map snd subs) \<and>
             (\<forall>b \<in> set (map snd subs). b < nextChan st \<and> subChannels (chans st b) = None)))"

text \<open>Two stores with the same channels, the same table keys and the same sub-channels.\<close>

definition same_shape :: "state \<Rightarrow> state \<Rightarrow> bool" where
  "same_shape st st1 =
     (nextChan st1 = nextChan st \<and>
      (\<forall>c. subChannels (chans st1 c) = subChannels (chans st c) \<and>
           serverConnections (chans st1 c) = serverConnections (chans st c)))"

text \<open>
  Every pending handler belongs to calls of \<^verbatim>\<open>close\<close> on channels that have been
  constructed and are destroyed.
\<close>

definition pend_ok :: "state \<Rightarrow> bool" where
  "pend_ok st =
     (\<forall>x \<in> set (pending st). \<forall>a \<in> set (chain x). destroyed (chans st a) \<and> a < nextChan st)"

text \<open>
  What a call of \<^verbatim>\<open>close\<close> with callback \<open>k\<close> does to the flags and the pending
  handlers: no flag is reset, and the handlers it adds belong to the closes of \<open>k\<close> or
  to closes of destroyed channels.
\<close>

definition grown :: "callback \<Rightarrow> state \<Rightarrow> state \<Rightarrow> bool" where
  "grown k st st1 =
     (nextChan st1 = nextChan st \<and>
      (\<forall>a. destroyed (chans st a) \<longrightarrow> destroyed (chans st1 a)) \<and>
      (\<exists>ys. pending st1 = pending st @ ys \<and>
            (\<forall>y \<in> set ys. \<forall>a \<in> set (chain y).
               a \<in> set (chain k) \<or> destroyed (chans st1 a) \<and> a < nextChan st)))"

text \<open>
  A bound on the number of completions a handler can still cause: the measure by which
  every schedule that keeps firing comes to an end.
\<close>

fun weight :: "callback \<Rightarrow> nat" where
  "weight NotAFunction = 0"
| "weight (UserFn f) = 0"
| "weight (OnClose c k) = Suc (weight k)"
| "weight (CloseServerSocket c k) = Suc (Suc (weight k))"

definition load :: "callback list \<Rightarrow> nat" where
  "load ps = sum_list (map (\<lambda>y. Suc (weight y)) ps)"

text \<open>
  The stores that arise from the empty store by the operations of the channel and the
  events of its collaborators: the constructor, \<^verbatim>\<open>makeSubChannel\<close>, \<^verbatim>\<open>listen\<close>, the
  completion of the bind, the \<^verbatim>\<open>listening\<close> event, an accepted socket, the close of a
  socket, \<^verbatim>\<open>register\<close>, \<^verbatim>\<open>request\<close>, \<^verbatim>\<open>close\<close> with a callback of the caller, and the
  completion of a resource that is closing.
\<close>

inductive reachable :: "state \<Rightarrow> bool" where
  start: "reachable empty_state"
| construct: "reachable st \<Longrightarrow> reachable (snd (TChannel dT st opts))"
| sub_channel:
    "reachable st \<Longrightarrow> self < nextChan st \<Longrightarrow>
     reachable (snd (makeSubChannel dT st self opts))"
| listen: "reachable st \<Longrightarrow> c < nextChan st \<Longrightarrow> reachable (snd (listen st c port hst cb))"
| bound:
    "reachable st \<Longrightarrow> c < nextChan st \<Longrightarrow> serverSocket (chans st c) = Some srv \<Longrightarrow>
     reachable (upd_chan c (\<lambda>ch. ch\<lparr>serverSocket := Some \<lparr>address = Some port\<rparr>\<rparr>) st)"
| listening:
    "reachable st \<Longrightarrow> c < nextChan st \<Longrightarrow> reachable (snd (onServerSocketListening st c))"
| accept:
    "reachable st \<Longrightarrow> c < nextChan st \<Longrightarrow>
     reachable (snd (onServerSocketConnection st c sock))"
| socket_closed: "reachable st \<Longrightarrow> reachable (socket_closes sid st)"
| register: "reachable st \<Longrightarrow> c < nextChan st \<Longrightarrow> reachable (snd (register st c name fn))"
| request:
    "reachable st \<Longrightarrow> c < nextChan st \<Longrightarrow> request n st c opts = Some (r, st1) \<Longrightarrow>
     reachable st1"
| close:
    "reachable st \<Longrightarrow> c < nextChan st \<Longrightarrow> chain k = [] \<Longrightarrow>
     close n st c k = Some (r1, st1) \<Longrightarrow> reachable st1"
| completion: "reachable st \<Longrightarrow> fire i st = Some st1 \<Longrightarrow> reachable st1"

section \<open>Basic facts about the store\<close>

lemma over_None [simp]: "over None x = x"
  by (cases x) simp_all

lemma chans_upd_chan [simp]: "chans (upd_chan c f st) = (chans st)(c := f (chans st c))"
  and trace_upd_chan [simp]: "trace (upd_chan c f st) = trace st"
  and pending_upd_chan [simp]: "pending (upd_chan c f st) = pending st"
  and counters_upd_chan [simp]: "counters (upd_chan c f st) = counters st"
  and nextChan_upd_chan [simp]: "nextChan (upd_chan c f st) = nextChan st"
  and nextPool_upd_chan [simp]: "nextPool (upd_chan c f st) = nextPool st"
  and nextConn_upd_chan [simp]: "nextConn (upd_chan c f st) = nextConn st"
  by (simp_all add: upd_chan_def)

lemma chans_emit [simp]: "chans (emit e st) = chans st"
  and trace_emit [simp]: "trace (emit e st) = trace st @ [e]"
  and pending_emit [simp]: "pending (emit e st) = pending st"
  and counters_emit [simp]: "counters (emit e st) = counters st"
  and nextChan_emit [simp]: "nextChan (emit e st) = nextChan st"
  and nextPool_emit [simp]: "nextPool (emit e st) = nextPool st"
  and nextConn_emit [simp]: "nextConn (emit e st) = nextConn st"
  by (simp_all add: emit_def)

lemma chans_hand_over [simp]: "chans (hand_over k st) = chans st"
  and trace_hand_over [simp]: "trace (hand_over k st) = trace st"
  and pending_hand_over [simp]: "pending (hand_over k st) = pending st @ [k]"
  and counters_hand_over [simp]: "counters (hand_over k st) = counters st"
  and nextChan_hand_over [simp]: "nextChan (hand_over k st) = nextChan st"
  and nextPool_hand_over [simp]: "nextPool (hand_over k st) = nextPool st"
  and nextConn_hand_over [simp]: "nextConn (hand_over k st) = nextConn st"
  by (simp_all add: hand_over_def)

section \<open>Tables\<close>

lemma update_fresh: "k \<notin> fst ` set xs \<Longrightarrow> AList.update k v xs = xs @ [(k, v)]"
  by (induction xs) auto

lemma update_after_delete:
  "AList.update k v (AList.delete k xs) = AList.delete k xs @ [(k, v)]"
  by (rule update_fresh) (simp add: delete_notin_dom)

lemma delete_absent: "map_of xs k = None \<Longrightarrow> AList.delete k xs = xs"
  by (simp add: delete_id map_of_eq_None_iff)

lemma update_absent: "map_of xs k = None \<Longrightarrow> AList.update k v xs = xs @ [(k, v)]"
  by (simp add: update_fresh map_of_eq_None_iff)

lemma distinct_reinsert:
  "distinct (map fst xs) \<Longrightarrow> distinct (map fst (AList.delete k xs @ [(k, v)]))"
  using delete_notin_dom [of k xs] by (simp add: distinct_delete)

lemma map_of_reinsert: "map_of (AList.delete k xs @ [(k, v)]) k = Some v"
  by (simp add: delete_conv' map_add_def)

lemma accept_destroyed:
  "destroyed (chans st c) \<Longrightarrow>
   onServerSocketConnection st c sock =
     (Inr (), emit (LogError ''got incoming socket whilst destroyed'') st)"
  by (simp add: onServerSocketConnection_def)

lemma accept_result:
  "\<not> destroyed (chans st c) \<Longrightarrow> serverConnections (chans st c) = Some tbl \<Longrightarrow>
   fst (onServerSocketConnection st c sock) = Inr ()"
  by (simp add: onServerSocketConnection_def Let_def split: option.splits)

lemma accept_table:
  "\<not> destroyed (chans st c) \<Longrightarrow> serverConnections (chans st c) = Some tbl \<Longrightarrow>
   addr = remoteAddress sock @ '':'' @ string_of_nat (remotePort sock) \<Longrightarrow>
   serverConnections (chans (snd (onServerSocketConnection st c sock)) c) =
     Some (AList.delete addr tbl @ [(addr, nextConn st)])"
  by (cases "map_of tbl addr")
     (simp_all add: onServerSocketConnection_def Let_def update_after_delete delete_absent
        update_absent)

lemma accept_trace_duplicate:
  "\<not> destroyed (chans st c) \<Longrightarrow> serverConnections (chans st c) = Some tbl \<Longrightarrow>
   addr = remoteAddress sock @ '':'' @ string_of_nat (remotePort sock) \<Longrightarrow>
   map_of tbl addr = Some oldConn \<Longrightarrow>
   trace (snd (onServerSocketConnection st c sock)) = trace st @
     [NewConnection (nextConn st) c (sockId sock) addr,
      ConnOnSpan (nextConn st),
      ResetAll oldConn (SocketClosedError ''duplicate remoteAddr incoming conn''),
      SockOnClose (sockId sock) c addr,
      Emit c (EvConnection (nextConn st))]"
  by (simp add: onServerSocketConnection_def Let_def)



section \<open>Closing sockets\<close>

lemma onSocketClose_deletes:
  "serverConnections (chans st c) = Some tbl \<Longrightarrow>
   onSocketClose st c a = (Inr (), upd_chan c (\<lambda>ch. ch\<lparr>serverConnections := Some (AList.delete a tbl)\<rparr>) st)"
  by (simp add: onSocketClose_def)

lemma onSocketClose_lacks:
  "has_table c st \<Longrightarrow> lacks c a (snd (onSocketClose st c a))"
  by (auto simp: has_table_def lacks_def onSocketClose_def delete_conv')

lemma onSocketClose_keeps_lacks:
  "lacks c a st \<Longrightarrow> lacks c a (snd (onSocketClose st c1 a1))"
  by (auto simp: lacks_def onSocketClose_def delete_conv' split: option.splits)

lemma onSocketClose_keeps_table:
  "has_table c st \<Longrightarrow> has_table c (snd (onSocketClose st c1 a1))"
  by (auto simp: has_table_def onSocketClose_def split: option.splits)

lemma run_handler_keeps_table: "has_table c s \<Longrightarrow> has_table c (run_handler sid e s)"
  by (cases e) (simp_all add: run_handler_def onSocketClose_keeps_table)

lemma run_handler_keeps_lacks: "lacks c a s \<Longrightarrow> lacks c a (run_handler sid e s)"
  by (cases e) (simp_all add: run_handler_def onSocketClose_keeps_lacks)

lemma fold_keeps_table: "has_table c s \<Longrightarrow> has_table c (fold (run_handler sid) es s)"
  by (induction es arbitrary: s) (simp_all add: run_handler_keeps_table)

lemma fold_keeps_lacks: "lacks c a s \<Longrightarrow> lacks c a (fold (run_handler sid) es s)"
  by (induction es arbitrary: s) (simp_all add: run_handler_keeps_lacks)

lemma fold_removes:
  "has_table c s \<Longrightarrow> SockOnClose sid c a \<in> set es \<Longrightarrow> lacks c a (fold (run_handler sid) es s)"
proof (induction es arbitrary: s)
  case Nil
  then show ?case by simp
next
  case (Cons e es)
  show ?case
  proof (cases "e = SockOnClose sid c a")
    case True
    then have "lacks c a (run_handler sid e s)"
      using Cons.prems(1) by (simp add: run_handler_def onSocketClose_lacks)
    then show ?thesis by (simp add: fold_keeps_lacks)
  next
    case False
    with Cons.prems have "SockOnClose sid c a \<in> set es" by auto
    moreover have "has_table c (run_handler sid e s)"
      using Cons.prems(1) by (rule run_handler_keeps_table)
    ultimately show ?thesis using Cons.IH by simp
  qed
qed

lemma accept_destroyed_flag:
  "\<not> destroyed (chans st c) \<Longrightarrow>
   \<not> destroyed (chans (snd (onServerSocketConnection st c sock)) c)"
  by (simp add: onServerSocketConnection_def Let_def split: option.splits)

lemma accept_installs_handler:
  "\<not> destroyed (chans st c) \<Longrightarrow> serverConnections (chans st c) = Some tbl \<Longrightarrow>
   SockOnClose (sockId sock) c (remoteAddress sock @ '':'' @ string_of_nat (remotePort sock))
     \<in> set (trace (snd (onServerSocketConnection st c sock)))"
  by (simp add: onServerSocketConnection_def Let_def split: option.splits)

lemma accept_trace_grows:
  "set (trace st) \<subseteq> set (trace (snd (onServerSocketConnection st c sock)))"
  by (auto simp: onServerSocketConnection_def Let_def split: option.splits)



section \<open>Listening and sub-channel creation\<close>

lemma propagate_top_hostPort:
  "truthyS (hostPort (chans st c)) \<Longrightarrow>
   hostPort (chans (propagate c subs name st) c) = hostPort (chans st c)"
  by (auto simp: propagate_def split: option.splits)

lemma propagate_hostPort:
  "hostPort (chans (propagate c subs name st) b) =
     (if map_of subs name = Some b \<and> \<not> truthyS (hostPort (chans st b))
      then hostPort (chans st c) else hostPort (chans st b))"
  by (auto simp: propagate_def split: option.splits)

lemma propagate_listening:
  "listening (chans (propagate c subs name st) b) = listening (chans st b)"
  by (auto simp: propagate_def split: option.splits)

lemma propagate_trace: "trace (propagate c subs name st) = trace st"
  by (auto simp: propagate_def split: option.splits)

lemma fold_propagate_trace: "trace (fold (propagate c subs) names st) = trace st"
  by (induction names arbitrary: st) (simp_all add: propagate_trace)

lemma fold_propagate_listening:
  "listening (chans (fold (propagate c subs) names st) b) = listening (chans st b)"
  by (induction names arbitrary: st) (simp_all add: propagate_listening)

lemma fold_propagate_hostPort:
  "truthyS (hostPort (chans st c)) \<Longrightarrow>
   hostPort (chans (fold (propagate c subs) names st) b) =
     (if (\<exists>name \<in> set names. map_of subs name = Some b) \<and> \<not> truthyS (hostPort (chans st b))
      then hostPort (chans st c) else hostPort (chans st b))"
proof (induction names arbitrary: st)
  case Nil
  then show ?case by simp
next
  case (Cons name names)
  let ?st1 = "propagate c subs name st"
  have top: "hostPort (chans ?st1 c) = hostPort (chans st c)"
    using Cons.prems by (rule propagate_top_hostPort)
  then have "truthyS (hostPort (chans ?st1 c))" using Cons.prems by simp
  from Cons.IH [OF this] top Cons.prems show ?case
    by (auto simp: propagate_hostPort)
qed

lemma listening_destroyed:
  "serverSocket (chans st c) = Some srv \<Longrightarrow> address srv = Some port \<Longrightarrow>
   destroyed (chans st c) \<Longrightarrow>
   onServerSocketListening st c =
     (Inr (), emit (LogError ''got serverSocket listen whilst destroyed'') st)"
  by (simp add: onServerSocketListening_def)

lemma listening_live:
  assumes "serverSocket (chans st c) = Some srv" "address srv = Some port"
    "\<not> destroyed (chans st c)"
  defines "hp \<equiv> str_of_opt (host (chans st c)) @ '':'' @ string_of_nat port"
  defines "st1 \<equiv> snd (onServerSocketListening st c)"
  shows "fst (onServerSocketListening st c) = Inr ()"
    and "hostPort (chans st1 c) = Some hp"
    and "listening (chans st1 c)"
    and "trace st1 = trace st @ [Emit c EvListening]"
    and "subChannels (chans st c) = Some subs \<Longrightarrow> map_of subs name = Some b \<Longrightarrow> b \<noteq> c \<Longrightarrow>
         hostPort (chans st1 b) =
           (if truthyS (hostPort (chans st b)) then hostPort (chans st b) else Some hp)"
proof -
  let ?s1 = "upd_chan c (\<lambda>ch. ch\<lparr>hostPort := Some (str_of_opt (host ch) @ '':'' @
                                                            string_of_nat port),
                                       listening := True\<rparr>) st"
  have t: "truthyS (hostPort (chans ?s1 c))" by simp
  have hp1: "hostPort (chans ?s1 c) = Some hp" by (simp add: hp_def)
  show "fst (onServerSocketListening st c) = Inr ()"
    using assms(1-3) by (simp add: onServerSocketListening_def Let_def)
  show "hostPort (chans st1 c) = Some hp"
    using assms(1-3) fold_propagate_hostPort [OF t, of _ _ c] hp1 unfolding st1_def
    by (simp add: onServerSocketListening_def Let_def split: option.splits)
  show "listening (chans st1 c)"
    using assms(1-3) unfolding st1_def
    by (simp add: onServerSocketListening_def Let_def fold_propagate_listening split: option.splits)
  show "trace st1 = trace st @ [Emit c EvListening]"
    using assms(1-3) unfolding st1_def
    by (simp add: onServerSocketListening_def Let_def fold_propagate_trace split: option.splits)
  show "hostPort (chans st1 b) =
           (if truthyS (hostPort (chans st b)) then hostPort (chans st b) else Some hp)"
    if "subChannels (chans st c) = Some subs" "map_of subs name = Some b" "b \<noteq> c"
  proof -
    have "name \<in> set (map fst subs)"
      using that(2) by (metis map_of_eq_None_iff option.distinct(1) set_map)
    then have ex: "\<exists>n \<in> set (map fst subs). map_of subs n = Some b" using that(2) by blast
    have "st1 = emit (Emit c EvListening) (fold (propagate c subs) (map fst subs) ?s1)"
      using assms(1-3) that(1) unfolding st1_def
      by (simp add: onServerSocketListening_def Let_def)
    then show ?thesis
      using fold_propagate_hostPort [OF t, of subs "map fst subs" b] ex that(3) hp1
      by simp
  qed
qed

lemma chans_addOnePeer [simp]: "chans (addOnePeer self chan p st) = chans st"
  by (cases p) (simp_all add: addOnePeer_def)

lemma nextPool_addOnePeer [simp]: "nextPool (addOnePeer self chan p st) = nextPool st"
  by (cases p) (simp_all add: addOnePeer_def)

lemma chans_fold_addOnePeer [simp]: "chans (fold (addOnePeer self chan) ps st) = chans st"
  by (induction ps arbitrary: st) simp_all

lemma nextPool_fold_addOnePeer [simp]: "nextPool (fold (addOnePeer self chan) ps st) = nextPool st"
  by (induction ps arbitrary: st) simp_all

lemma trace_fold_addOnePeer:
  "trace (fold (addOnePeer self chan) ps st) =
     trace st @ concat (map (peerEffects (peers (chans st self)) (peers (chans st chan))) ps)"
proof (induction ps arbitrary: st)
  case Nil
  then show ?case by simp
next
  case (Cons p ps)
  have "trace (addOnePeer self chan p st) =
          trace st @ peerEffects (peers (chans st self)) (peers (chans st chan)) p"
    by (cases p) (simp_all add: addOnePeer_def peerEffects_def)
  then show ?case using Cons.IH [of "addOnePeer self chan p st"] by simp
qed

lemma TChannel_trace: "trace (snd (TChannel dT st opts)) = trace st"
  by (simp add: TChannel_def Let_def)

lemma TChannel_fresh: "fst (TChannel dT st opts) = nextChan st"
  by (simp add: TChannel_def Let_def)

lemma TChannel_peers: "peers (chans (snd (TChannel dT st opts)) (nextChan st)) = nextPool st"
  by (simp add: TChannel_def Let_def)

lemma TChannel_other: "x \<noteq> nextChan st \<Longrightarrow> chans (snd (TChannel dT st opts)) x = chans st x"
  by (simp add: TChannel_def Let_def)

lemma TChannel_hostPort: "hostPort (chans (snd (TChannel dT st opts)) (nextChan st)) = None"
  by (simp add: TChannel_def Let_def)

lemma TChannel_pair: "TChannel dT st opts = (nextChan st, snd (TChannel dT st opts))"
  by (simp add: TChannel_def Let_def)

lemma TChannel_nextPool: "nextPool (snd (TChannel dT st opts)) = Suc (nextPool st)"
  by (simp add: TChannel_def Let_def)

lemma makeSubChannel_Inr:
  assumes "makeSubChannel dT st self opts = (Inr chan, st1)"
  shows "chan = nextChan st \<and>
         st1 = made dT st self (case opts of None \<Rightarrow> empty_options | Some o1 \<Rightarrow> o1)"
  using assms
  by (auto simp: makeSubChannel_def made_def Let_def case_prod_beta TChannel_fresh
        split: if_splits option.splits)

lemma made_trace:
  "self \<noteq> nextChan st \<Longrightarrow>
   trace (made dT st self o1) =
     trace st @ concat (map (peerEffects (peers (chans st self)) (nextPool st))
                          (case oPeers o1 of None \<Rightarrow> [] | Some ps \<Rightarrow> ps))"
  by (simp add: made_def Let_def TChannel_peers TChannel_other TChannel_trace
        trace_fold_addOnePeer split: option.splits)

lemma made_props:
  shows "self \<noteq> nextChan st \<Longrightarrow> peers (chans (made dT st self o1) (nextChan st)) = nextPool st"
    and "nextPool (made dT st self o1) = Suc (nextPool st)"
    and "self \<noteq> nextChan st \<Longrightarrow> peers (chans (made dT st self o1) self) = peers (chans st self)"
    and "self \<noteq> nextChan st \<Longrightarrow> truthyS (hostPort (chans st self)) \<Longrightarrow>
         hostPort (chans (made dT st self o1) (nextChan st)) = hostPort (chans st self)"
  by (simp_all add: made_def Let_def TChannel_peers TChannel_other TChannel_nextPool
        split: option.splits)



section \<open>Routing of requests\<close>

lemma request_delegates:
  "\<not> destroyed (chans st c) \<Longrightarrow> serviceName (chans st c) = [] \<Longrightarrow>
   \<not> truthyS (rHost (merged (chans st c) options0)) \<Longrightarrow>
   subChannelFor (chans st c) (merged (chans st c) options0) = Own sub \<Longrightarrow>
   request (Suc n) st c options0 = request n st sub (Some (merged (chans st c) options0))"
  by (simp add: Let_def)

lemma request_top_level_error:
  "\<not> destroyed (chans st c) \<Longrightarrow> serviceName (chans st c) = [] \<Longrightarrow>
   \<not> truthyS (rHost (merged (chans st c) options0)) \<Longrightarrow>
   subChannelFor (chans st c) (merged (chans st c) options0) = Absent \<Longrightarrow>
   request (Suc n) st c options0 = Some (Inl TopLevelRequestError, st)"
  by (simp add: Let_def)

lemma request_inherited:
  "\<not> destroyed (chans st c) \<Longrightarrow> serviceName (chans st c) = [] \<Longrightarrow>
   \<not> truthyS (rHost (merged (chans st c) options0)) \<Longrightarrow>
   subChannelFor (chans st c) (merged (chans st c) options0) = Inherited \<Longrightarrow>
   request (Suc n) st c options0 = Some (Inl TypeError, st)"
  by (simp add: Let_def)

lemma request_via_peers:
  "\<not> destroyed (chans st c) \<Longrightarrow>
   \<not> (serviceName (chans st c) = [] \<and> \<not> truthyS (rHost (merged (chans st c) options0))) \<Longrightarrow>
   truthyS (rHost (merged (chans st c) options0)) \<or>
     truthyB (streamed (merged (chans st c) options0)) \<Longrightarrow>
   request (Suc n) st c options0 =
     Some (Inr (PeersRequest (peers (chans st c)) (merged (chans st c) options0)),
           st\<lparr>trace := trace st @
              [PeersRequestCall (peers (chans st c)) (merged (chans st c) options0),
               Emit c (EvRequest (PeersRequest (peers (chans st c))
                                    (merged (chans st c) options0)))]\<rparr>)"
  by (auto simp: Let_def emit_def)

lemma request_single_shot:
  "\<not> destroyed (chans st c) \<Longrightarrow>
   \<not> (serviceName (chans st c) = [] \<and> \<not> truthyS (rHost (merged (chans st c) options0))) \<Longrightarrow>
   \<not> (truthyS (rHost (merged (chans st c) options0)) \<or>
      truthyB (streamed (merged (chans st c) options0))) \<Longrightarrow>
   request (Suc n) st c options0 =
     Some (Inr (TChannelRequest c (merged (chans st c) options0)),
           st\<lparr>trace := trace st @
              [NewRequest c (merged (chans st c) options0),
               Emit c (EvRequest (TChannelRequest c (merged (chans st c) options0)))]\<rparr>)"
  by (auto simp: Let_def emit_def)

lemma request_emits_last:
  "request m st c options0 = Some (Inr r, st1) \<Longrightarrow>
   \<exists>c1 es. trace st1 = trace st @ es @ [Emit c1 (EvRequest r)]"
proof (induction m arbitrary: c options0)
  case 0
  then show ?case by simp
next
  case (Suc m)
  show ?case
  proof (cases "destroyed (chans st c)")
    case True
    with Suc.prems show ?thesis by simp
  next
    case False
    note live = this
    let ?o = "merged (chans st c) options0"
    show ?thesis
    proof (cases "serviceName (chans st c) = [] \<and> \<not> truthyS (rHost ?o)")
      case True
      show ?thesis
      proof (cases "subChannelFor (chans st c) ?o")
        case Absent
        with True live Suc.prems show ?thesis by (simp add: Let_def)
      next
        case Inherited
        with True live Suc.prems show ?thesis by (simp add: Let_def)
      next
        case (Own sub)
        with True live Suc.prems have "request m st sub (Some ?o) = Some (Inr r, st1)"
          by (simp add: Let_def)
        then show ?thesis by (rule Suc.IH)
      qed
    next
      case False
      show ?thesis
      proof (cases "truthyS (rHost ?o) \<or> truthyB (streamed ?o)")
        case True
        from request_via_peers [OF live False True, of m] Suc.prems
        show ?thesis by (intro exI [of _ c] exI [of _ "[PeersRequestCall (peers (chans st c)) ?o]"]) auto
      next
        case True2: False
        from request_single_shot [OF live False True2, of m] Suc.prems
        show ?thesis by (intro exI [of _ c] exI [of _ "[NewRequest c ?o]"]) auto
      qed
    qed
  qed
qed

lemma request_returns:
  assumes "\<And>sub. subChannelFor (chans st c) (merged (chans st c) options0) = Own sub \<Longrightarrow>
            serviceName (chans st sub) \<noteq> []"
  shows "request (Suc (Suc n)) st c options0 \<noteq> None"
proof (cases "destroyed (chans st c) \<or>
    \<not> (serviceName (chans st c) = [] \<and> \<not> truthyS (rHost (merged (chans st c) options0)))")
  case True
  then show ?thesis by (auto simp: Let_def)
next
  case False
  then have live: "\<not> destroyed (chans st c)" and top: "serviceName (chans st c) = []"
    and nh: "\<not> truthyS (rHost (merged (chans st c) options0))" by auto
  show ?thesis
  proof (cases "subChannelFor (chans st c) (merged (chans st c) options0)")
    case Absent
    from request_top_level_error [OF live top nh Absent] show ?thesis by simp
  next
    case Inherited
    from request_inherited [OF live top nh Inherited] show ?thesis by simp
  next
    case (Own sub)
    then have "serviceName (chans st sub) \<noteq> []" by (rule assms)
    then have "request (Suc n) st sub (Some (merged (chans st c) options0)) \<noteq> None"
      by (auto simp: Let_def)
    with request_delegates [OF live top nh Own, of "Suc n"] show ?thesis by simp
  qed
qed



section \<open>The phases of close\<close>

lemma chans_incr [simp]: "chans (incr c st) = chans st"
  and trace_incr [simp]: "trace (incr c st) = trace st @ [CounterIncr c]"
  and pending_incr [simp]: "pending (incr c st) = pending st"
  and counters_incr [simp]: "counters (incr c st) = (counters st)(c := counters st c + 1)"
  by (simp_all add: incr_def)

lemma chans_beginClose [simp]:
    "chans (beginClose c st) = (chans st)(c := (chans st c)\<lparr>destroyed := True\<rparr>)"
  and trace_beginClose [simp]: "trace (beginClose c st) = trace st"
  and pending_beginClose [simp]: "pending (beginClose c st) = pending st"
  and counters_beginClose [simp]: "counters (beginClose c st) = (counters st)(c := 1)"
  by (simp_all add: beginClose_def Let_def)

lemma chans_closeServer [simp]: "chans (closeServer c k st) = chans st"
  and trace_closeServer: "trace (closeServer c k st) = trace st @ serverTrace c k (chans st c)"
  and pending_closeServer:
    "pending (closeServer c k st) = pending st @ serverPending c k (chans st c)"
  and counters_closeServer:
    "counters (closeServer c k st) = (counters st)(c := counters st c + int (nServer (chans st c)))"
  by (auto simp: closeServer_def closeServerSocket_def Let_def serverTrace_def serverPending_def
        nServer_def split: option.splits)

lemma chans_closeConn [simp]: "chans (closeConn c k key st) = chans st"
  by (simp add: closeConn_def Let_def split: option.splits)

lemma chans_fold_closeConn [simp]: "chans (fold (closeConn c k) keys st) = chans st"
  by (induction keys arbitrary: st) simp_all

lemma chans_closeConns [simp]: "chans (closeConns c k st) = chans st"
  by (simp add: closeConns_def split: option.splits)

lemma fold_closeConn:
  assumes "serverConnections (chans st c) = Some tbl" "distinct (map fst tbl)"
    "set ps \<subseteq> set tbl"
  shows "trace (fold (closeConn c k) (map fst ps) st) =
           trace st @ concat (map (\<lambda>(key, conn). [CounterIncr c, ConnClose conn (OnClose c k)]) ps) \<and>
         pending (fold (closeConn c k) (map fst ps) st) =
           pending st @ replicate (length ps) (OnClose c k) \<and>
         counters (fold (closeConn c k) (map fst ps) st) =
           (counters st)(c := counters st c + int (length ps))"
  using assms
proof (induction ps arbitrary: st)
  case Nil
  then show ?case by simp
next
  case (Cons p ps)
  obtain key conn where p: "p = (key, conn)" by (cases p)
  have look: "map_of tbl key = Some conn" using Cons.prems p by simp
  let ?st1 = "closeConn c k key st"
  have 1: "trace ?st1 = trace st @ [CounterIncr c, ConnClose conn (OnClose c k)]"
    "pending ?st1 = pending st @ [OnClose c k]"
    "counters ?st1 = (counters st)(c := counters st c + 1)"
    using Cons.prems(1) look by (simp_all add: closeConn_def Let_def)
  have "serverConnections (chans ?st1 c) = Some tbl" using Cons.prems(1) by simp
  from Cons.IH [OF this Cons.prems(2)] Cons.prems(3) 1 p show ?case
    by (simp add: replicate_app_Cons_same fun_eq_iff)
qed

lemma trace_closeConns:
    "keys_ok (chans st c) \<Longrightarrow> trace (closeConns c k st) = trace st @ connsTrace c k (chans st c)"
  and pending_closeConns:
    "keys_ok (chans st c) \<Longrightarrow>
     pending (closeConns c k st) = pending st @ connsPending c k (chans st c)"
  and counters_closeConns:
    "keys_ok (chans st c) \<Longrightarrow>
     counters (closeConns c k st) = (counters st)(c := counters st c + int (nConns (chans st c)))"
  using fold_closeConn [of st c _ _ k]
  by (auto simp: closeConns_def connsTrace_def connsPending_def nConns_def keys_ok_def
        split: option.splits)

lemma chans_closePeers [simp]: "chans (closePeers c k st) = chans st"
  and trace_closePeers [simp]:
    "trace (closePeers c k st) = trace st @ [PeersClose (peers (chans st c)) (OnClose c k)]"
  and pending_closePeers [simp]: "pending (closePeers c k st) = pending st @ [OnClose c k]"
  and counters_closePeers [simp]: "counters (closePeers c k st) = counters st"
  by (simp_all add: closePeers_def)



lemma shape_destroyed [simp]:
  "serverTrace c k (ch\<lparr>destroyed := d\<rparr>) = serverTrace c k ch"
  "serverPending c k (ch\<lparr>destroyed := d\<rparr>) = serverPending c k ch"
  "connsTrace c k (ch\<lparr>destroyed := d\<rparr>) = connsTrace c k ch"
  "connsPending c k (ch\<lparr>destroyed := d\<rparr>) = connsPending c k ch"
  "nServer (ch\<lparr>destroyed := d\<rparr>) = nServer ch"
  "nConns (ch\<lparr>destroyed := d\<rparr>) = nConns ch"
  "keys_ok (ch\<lparr>destroyed := d\<rparr>) = keys_ok ch"
  by (simp_all add: serverTrace_def serverPending_def connsTrace_def connsPending_def
        nServer_def nConns_def keys_ok_def)

lemma chans_closeLeaf:
  "chans (closeLeaf b k st) = (chans st)(b := (chans st b)\<lparr>destroyed := True\<rparr>)"
  by (simp add: closeLeaf_def)

lemma trace_closeLeaf:
  "keys_ok (chans st b) \<Longrightarrow> trace (closeLeaf b k st) = trace st @ leafTrace b k (chans st b)"
  by (simp add: closeLeaf_def leafTrace_def trace_closeConns trace_closeServer)

lemma pending_closeLeaf:
  "keys_ok (chans st b) \<Longrightarrow>
   pending (closeLeaf b k st) = pending st @ leafPending b k (chans st b)"
  by (simp add: closeLeaf_def leafPending_def pending_closeConns pending_closeServer)

lemma counters_closeLeaf:
  "keys_ok (chans st b) \<Longrightarrow>
   counters (closeLeaf b k st) =
     (counters st)(b := 1 + int (nServer (chans st b)) + int (nConns (chans st b)))"
  by (simp add: closeLeaf_def counters_closeConns counters_closeServer fun_eq_iff)

lemma close_leaf:
  "\<not> destroyed (chans st b) \<Longrightarrow> subChannels (chans st b) = None \<Longrightarrow>
   close (Suc n) st b k = Some (Inr (), closeLeaf b k st)"
  by (simp add: Let_def closeLeaf_def)

lemma subChannels_closeLeaf [simp]:
  "subChannels (chans (closeLeaf b k st) x) = subChannels (chans st x)"
  by (simp add: chans_closeLeaf)

lemma subChannels_closeKid [simp]:
  "subChannels (chans (closeKid c k b st) x) = subChannels (chans st x)"
  by (simp add: closeKid_def)

lemma subChannels_closeSubLeaf [simp]:
  "subChannels (chans (closeSubLeaf c k subs name st) x) = subChannels (chans st x)"
  by (simp add: closeSubLeaf_def split: option.splits)

lemma closeSub_leaf:
  assumes "\<forall>b \<in> set (map snd subs). subChannels (chans st b) = None"
  shows "closeSub (close (Suc n)) c k subs name st = Some (closeSubLeaf c k subs name st)"
proof (cases "map_of subs name")
  case None
  then show ?thesis by (simp add: closeSub_def closeSubLeaf_def)
next
  case (Some b)
  then have "b \<in> set (map snd subs)" by (force dest: map_of_SomeD)
  with assms have "subChannels (chans (incr c st) b) = None" by auto
  then show ?thesis
    using Some close_leaf [of "incr c st" b n "OnClose c k"]
    by (simp add: closeSub_def closeSubLeaf_def closeKid_def del: close.simps)
qed

lemma fold_opt_closeSub:
  assumes "\<forall>b \<in> set (map snd subs). subChannels (chans st b) = None"
  shows "fold_opt (closeSub (close (Suc n)) c k subs) names st =
           Some (fold (closeSubLeaf c k subs) names st)"
  using assms
proof (induction names arbitrary: st)
  case Nil
  then show ?case by simp
next
  case (Cons name names)
  have "\<forall>b \<in> set (map snd subs). subChannels (chans (closeSubLeaf c k subs name st) b) = None"
    using Cons.prems by simp
  from Cons.IH [OF this] closeSub_leaf [OF Cons.prems] show ?case
    by (simp del: close.simps)
qed

lemma destroyed_closeKid:
  "destroyed (chans (closeKid c k b st) x) = (x = b \<or> destroyed (chans st x))"
  by (simp add: closeKid_def chans_closeLeaf)

lemma fold_closeSubLeaf:
  assumes "distinct (map fst subs)" "set ps \<subseteq> set subs" "distinct (map snd ps)"
  shows "fold (closeSubLeaf c k subs) (map fst ps) st =
           fold (closeKid c k) (filter (\<lambda>b. \<not> destroyed (chans st b)) (map snd ps)) st"
  using assms(2,3)
proof (induction ps arbitrary: st)
  case Nil
  then show ?case by simp
next
  case (Cons p ps)
  obtain name b where p: "p = (name, b)" by (cases p)
  have look: "map_of subs name = Some b" using Cons.prems assms(1) p by simp
  have nb: "b \<notin> set (map snd ps)" using Cons.prems(2) p by simp
  have IH: "fold (closeSubLeaf c k subs) (map fst ps) s =
           fold (closeKid c k) (filter (\<lambda>b. \<not> destroyed (chans s b)) (map snd ps)) s" for s
    using Cons.IH Cons.prems by simp
  show ?case
  proof (cases "destroyed (chans st b)")
    case True
    then have "closeSubLeaf c k subs name st = st"
      using look by (simp add: closeSubLeaf_def)
    then show ?thesis using True p IH by simp
  next
    case False
    have "filter (\<lambda>x. \<not> destroyed (chans (closeKid c k b st) x)) (map snd ps) =
          filter (\<lambda>x. \<not> destroyed (chans st x)) (map snd ps)"
      using nb by (intro filter_cong) (auto simp: destroyed_closeKid)
    moreover have "closeSubLeaf c k subs name st = closeKid c k b st"
      using look False by (simp add: closeSubLeaf_def)
    ultimately show ?thesis using False p IH by simp
  qed
qed

lemma close_top:
  assumes live: "\<not> destroyed (chans st c)" and wf: "wf_hier st c"
  shows "close (Suc (Suc n)) st c k = Some (Inr (), closeTop c k st)"
proof (cases "subChannels (chans st c)")
  case None
  then show ?thesis using live by (simp add: Let_def closeTop_def kids_def)
next
  case (Some subs)
  let ?st4 = "closeConns c k (closeServer c k (beginClose c st))"
  from wf Some have d: "distinct (map fst subs)" "distinct (map snd subs)"
    "c \<notin> set (map snd subs)" "\<forall>b \<in> set (map snd subs). subChannels (chans st b) = None"
    by (auto simp: wf_hier_def)
  have sub4: "subChannels (chans ?st4 c) = Some subs" using Some by simp
  have leaves: "\<forall>b \<in> set (map snd subs). subChannels (chans ?st4 b) = None"
    using d by auto
  have same: "filter (\<lambda>b. \<not> destroyed (chans ?st4 b)) (map snd subs) = kids st c"
    unfolding kids_def using Some d(3) by (auto intro!: filter_cong)
  have "fold_opt (closeSub (close (Suc n)) c k subs) (map fst subs) ?st4 =
          Some (fold (closeKid c k) (kids st c) ?st4)"
    using fold_opt_closeSub [OF leaves] fold_closeSubLeaf [OF d(1) subset_refl d(2), of c k ?st4]
      same by simp
  then show ?thesis
    using live sub4 unfolding closeTop_def close.simps(2) [of "Suc n"] Let_def
    by (simp del: close.simps)
qed



lemma closeKid_proj:
  assumes "keys_ok (chans st b)"
  shows "chans (closeKid c k b st) = (chans st)(b := (chans st b)\<lparr>destroyed := True\<rparr>)"
    and "trace (closeKid c k b st) =
           trace st @ CounterIncr c # leafTrace b (OnClose c k) (chans st b)"
    and "pending (closeKid c k b st) = pending st @ leafPending b (OnClose c k) (chans st b)"
    and "counters (closeKid c k b st) =
           ((counters st)(c := counters st c + 1))(b := own (chans st b))"
  using assms
  by (simp_all add: closeKid_def chans_closeLeaf trace_closeLeaf pending_closeLeaf
        counters_closeLeaf own_def)

lemma fold_closeKid:
  assumes "distinct ks" "c \<notin> set ks" "\<forall>b \<in> set ks. keys_ok (chans st b)"
  shows "chans (fold (closeKid c k) ks st) =
           (\<lambda>x. if x \<in> set ks then (chans st x)\<lparr>destroyed := True\<rparr> else chans st x) \<and>
         trace (fold (closeKid c k) ks st) = trace st @ kidsTrace c k st ks \<and>
         pending (fold (closeKid c k) ks st) = pending st @ kidsPending c k st ks \<and>
         counters (fold (closeKid c k) ks st) =
           (\<lambda>x. if x = c then counters st c + int (length ks)
                else if x \<in> set ks then own (chans st x) else counters st x)"
  using assms
proof (induction ks arbitrary: st)
  case Nil
  then show ?case by (simp add: kidsTrace_def kidsPending_def fun_eq_iff)
next
  case (Cons b ks)
  let ?s = "closeKid c k b st"
  have kb: "keys_ok (chans st b)" using Cons.prems by simp
  note pr = closeKid_proj [OF kb, of c k]
  have nb: "b \<notin> set ks" "b \<noteq> c" "c \<notin> set ks" "distinct ks" using Cons.prems by auto
  have same: "\<And>x. x \<in> set ks \<Longrightarrow> chans ?s x = chans st x"
    using nb by (auto simp: pr(1))
  have ok: "\<forall>x \<in> set ks. keys_ok (chans ?s x)" using Cons.prems same by simp
  have kt: "kidsTrace c k ?s ks = kidsTrace c k st ks"
    unfolding kidsTrace_def using same by (intro arg_cong [where f = concat] map_cong) simp_all
  have kp: "kidsPending c k ?s ks = kidsPending c k st ks"
    unfolding kidsPending_def using same by (intro arg_cong [where f = concat] map_cong) simp_all
  from Cons.IH [OF nb(4) nb(3) ok]
  have IH: "chans (fold (closeKid c k) ks ?s) =
           (\<lambda>x. if x \<in> set ks then (chans ?s x)\<lparr>destroyed := True\<rparr> else chans ?s x)"
      "trace (fold (closeKid c k) ks ?s) = trace ?s @ kidsTrace c k ?s ks"
      "pending (fold (closeKid c k) ks ?s) = pending ?s @ kidsPending c k ?s ks"
      "counters (fold (closeKid c k) ks ?s) =
           (\<lambda>x. if x = c then counters ?s c + int (length ks)
                else if x \<in> set ks then own (chans ?s x) else counters ?s x)"
    by simp_all
  have 1: "chans (fold (closeKid c k) (b # ks) st) =
           (\<lambda>x. if x \<in> set (b # ks) then (chans st x)\<lparr>destroyed := True\<rparr> else chans st x)"
    using IH(1) same nb by (auto simp: fun_eq_iff pr(1))
  have 2: "trace (fold (closeKid c k) (b # ks) st) = trace st @ kidsTrace c k st (b # ks)"
    using IH(2) kt by (simp add: pr(2)) (simp add: kidsTrace_def)
  have 3: "pending (fold (closeKid c k) (b # ks) st) = pending st @ kidsPending c k st (b # ks)"
    using IH(3) kp by (simp add: pr(3)) (simp add: kidsPending_def)
  have 4: "counters (fold (closeKid c k) (b # ks) st) =
           (\<lambda>x. if x = c then counters st c + int (length (b # ks))
                else if x \<in> set (b # ks) then own (chans st x) else counters st x)"
    using IH(4) same nb by (auto simp: fun_eq_iff pr(4))
  from 1 2 3 4 show ?case by blast
qed

lemma kids_props:
  assumes "wf_hier st c"
  shows "distinct (kids st c)" "c \<notin> set (kids st c)"
    "\<forall>b \<in> set (kids st c). keys_ok (chans st b) \<and> \<not> destroyed (chans st b)"
  using assms by (auto simp: wf_hier_def kids_def split: option.splits)

lemma closeTop_proj:
  assumes wf: "wf_hier st c"
  shows "chans (closeTop c k st) =
           (\<lambda>x. if x = c \<or> x \<in> set (kids st c) then (chans st x)\<lparr>destroyed := True\<rparr>
                else chans st x)"
    and "trace (closeTop c k st) =
           trace st @ serverTrace c k (chans st c) @ connsTrace c k (chans st c) @
           kidsTrace c k st (kids st c) @ [PeersClose (peers (chans st c)) (OnClose c k)]"
    and "pending (closeTop c k st) =
           pending st @ serverPending c k (chans st c) @ connsPending c k (chans st c) @
           kidsPending c k st (kids st c) @ [OnClose c k]"
    and "counters (closeTop c k st) =
           (\<lambda>x. if x = c then own (chans st c) + int (length (kids st c))
                else if x \<in> set (kids st c) then own (chans st x) else counters st x)"
proof -
  let ?s4 = "closeConns c k (closeServer c k (beginClose c st))"
  note kp = kids_props [OF wf]
  have kc: "keys_ok (chans st c)" using wf by (simp add: wf_hier_def)
  have c4: "chans ?s4 = (chans st)(c := (chans st c)\<lparr>destroyed := True\<rparr>)" by simp
  have same: "\<And>x. x \<in> set (kids st c) \<Longrightarrow> chans ?s4 x = chans st x"
    using kp(2) by auto
  have ok: "\<forall>b \<in> set (kids st c). keys_ok (chans ?s4 b)" using kp(3) same by simp
  have t4: "trace ?s4 = trace st @ serverTrace c k (chans st c) @ connsTrace c k (chans st c)"
    using kc by (simp add: trace_closeConns trace_closeServer)
  have p4: "pending ?s4 =
      pending st @ serverPending c k (chans st c) @ connsPending c k (chans st c)"
    using kc by (simp add: pending_closeConns pending_closeServer)
  have n4: "counters ?s4 = (counters st)(c := own (chans st c))"
    using kc by (simp add: counters_closeConns counters_closeServer own_def fun_eq_iff)
  have kt: "kidsTrace c k ?s4 (kids st c) = kidsTrace c k st (kids st c)"
    unfolding kidsTrace_def using same by (intro arg_cong [where f = concat] map_cong) simp_all
  have kq: "kidsPending c k ?s4 (kids st c) = kidsPending c k st (kids st c)"
    unfolding kidsPending_def using same
    by (intro arg_cong [where f = concat] map_cong) simp_all
  note f = fold_closeKid [OF kp(1) kp(2) ok, of k]
  show "chans (closeTop c k st) =
           (\<lambda>x. if x = c \<or> x \<in> set (kids st c) then (chans st x)\<lparr>destroyed := True\<rparr>
                else chans st x)"
    using f same kp(2) by (auto simp: closeTop_def fun_eq_iff)
  show "trace (closeTop c k st) =
           trace st @ serverTrace c k (chans st c) @ connsTrace c k (chans st c) @
           kidsTrace c k st (kids st c) @ [PeersClose (peers (chans st c)) (OnClose c k)]"
    using f kt t4 kp(2) by (simp add: closeTop_def)
  show "pending (closeTop c k st) =
           pending st @ serverPending c k (chans st c) @ connsPending c k (chans st c) @
           kidsPending c k st (kids st c) @ [OnClose c k]"
    using f kq p4 by (simp add: closeTop_def)
  show "counters (closeTop c k st) =
           (\<lambda>x. if x = c then own (chans st c) + int (length (kids st c))
                else if x \<in> set (kids st c) then own (chans st x) else counters st x)"
    using f same n4 kp(2) by (auto simp: closeTop_def fun_eq_iff)
qed



section \<open>The join\<close>

lemma cnt_append: "cnt a (xs @ ys) = cnt a xs + cnt a ys"
  by (simp add: cnt_def)

lemma cnt_Nil [simp]: "cnt a [] = 0"
  by (simp add: cnt_def)

lemma cnt_Cons: "cnt a (x # xs) = (if target x = Some a then 1 else 0) + cnt a xs"
  by (simp add: cnt_def)

lemma cnt_remove:
  "i < length ps \<Longrightarrow>
   cnt a ps = cnt a (take i ps @ drop (Suc i) ps) + (if target (ps ! i) = Some a then 1 else 0)"
proof -
  assume "i < length ps"
  then have "ps = take i ps @ ps ! i # drop (Suc i) ps" by (rule id_take_nth_drop)
  then have "cnt a ps = cnt a (take i ps @ ps ! i # drop (Suc i) ps)" by simp
  then show ?thesis by (simp add: cnt_append cnt_Cons)
qed

lemma set_remove: "set (take i ps @ drop (Suc i) ps) \<subseteq> set ps"
  using set_take_subset [of i ps] set_drop_subset [of "Suc i" ps] by auto

lemma target_in_chain: "target y = Some a \<Longrightarrow> a \<in> set (chain y)"
  by (cases y) auto

lemma cnt_zero: "(\<forall>y \<in> set ys. target y \<noteq> Some a) \<Longrightarrow> cnt a ys = 0"
  by (induction ys) (auto simp: cnt_Cons)

lemma cnt_pos: "y \<in> set ys \<Longrightarrow> target y = Some a \<Longrightarrow> 0 < cnt a ys"
  by (induction ys) (auto simp: cnt_Cons)

lemma calls_emit [simp]: "calls f (emit e st) = calls f st + (if e = Called f then 1 else 0)"
  by (simp add: calls_def)

lemma calls_upd [simp]:
  "calls f (st\<lparr>counters := n\<rparr>) = calls f st"
  "calls f (st\<lparr>pending := p\<rparr>) = calls f st"
  "calls f (hand_over k st) = calls f st"
  by (simp_all add: calls_def)

lemma call_frame:
  "(\<forall>a. a \<notin> set (chain x) \<longrightarrow> counters (call x st) a = counters st a) \<and>
   (\<exists>ys. pending (call x st) = pending st @ ys \<and>
         (\<forall>y \<in> set ys. set (chain y) \<subseteq> set (chain x) \<and> user_fn y = user_fn x)) \<and>
   (user_fn x \<noteq> Some f \<longrightarrow> calls f (call x st) = calls f st)"
proof (induction x st rule: call.induct)
  case (1 st)
  then show ?case by simp
next
  case (2 g st)
  then show ?case by simp
next
  case (3 c k st)
  then show ?case by (simp add: closeServerSocket_def)
next
  case (4 c k st)
  let ?n = "counters st c - 1"
  let ?st1 = "st\<lparr>counters := (counters st)(c := ?n)\<rparr>"
  let ?st2 = "if ?n < 0 then emit (LogError ''closed more channel sockets than expected'') ?st1
              else ?st1"
  show ?case
  proof (cases "?n \<le> 0 \<and> is_function k")
    case False
    then have "call (OnClose c k) st = ?st1 \<or> call (OnClose c k) st = ?st2"
      by (auto simp: Let_def)
    then show ?thesis by auto
  next
    case True
    then have eq: "call (OnClose c k) st = call k ?st2" by (simp add: Let_def)
    have IH: "(\<forall>a. a \<notin> set (chain k) \<longrightarrow> counters (call k ?st2) a = counters ?st2 a) \<and>
      (\<exists>ys. pending (call k ?st2) = pending ?st2 @ ys \<and>
         (\<forall>y \<in> set ys. set (chain y) \<subseteq> set (chain k) \<and> user_fn y = user_fn k)) \<and>
      (user_fn k \<noteq> Some f \<longrightarrow> calls f (call k ?st2) = calls f ?st2)"
      using True by (intro "4.IH" [of ?n ?st1 ?st2]) auto
    have p2: "pending ?st2 = pending st" by simp
    have c2: "calls f ?st2 = calls f st" by simp
    have n2: "\<And>a. a \<noteq> c \<Longrightarrow> counters ?st2 a = counters st a" by simp
    from IH obtain ys where ys: "pending (call k ?st2) = pending ?st2 @ ys"
      "\<forall>y \<in> set ys. set (chain y) \<subseteq> set (chain k) \<and> user_fn y = user_fn k" by blast
    have "\<forall>y \<in> set ys. set (chain y) \<subseteq> set (chain (OnClose c k)) \<and>
            user_fn y = user_fn (OnClose c k)" using ys(2) by auto
    then have B: "\<exists>ys. pending (call (OnClose c k) st) = pending st @ ys \<and>
         (\<forall>y \<in> set ys. set (chain y) \<subseteq> set (chain (OnClose c k)) \<and>
            user_fn y = user_fn (OnClose c k))"
      using ys(1) p2 eq by metis
    have A: "\<forall>a. a \<notin> set (chain (OnClose c k)) \<longrightarrow>
               counters (call (OnClose c k) st) a = counters st a"
      using IH n2 eq by simp
    have C: "user_fn (OnClose c k) \<noteq> Some f \<longrightarrow> calls f (call (OnClose c k) st) = calls f st"
      using IH c2 eq by simp
    from A B C show ?thesis by blast
  qed
qed



lemma joinedI:
  "finite K \<Longrightarrow> r \<notin> K \<Longrightarrow> (\<And>x. x \<in> set (pending st) \<Longrightarrow> mine r f K x \<or> foreign r f K x) \<Longrightarrow>
   (\<And>b. b \<in> K \<Longrightarrow> counters st b = int (cnt b (pending st))) \<Longrightarrow>
   counters st r = int (cnt r (pending st)) + int (card {b \<in> K. 0 < cnt b (pending st)}) \<Longrightarrow>
   calls f st = n0 + (if counters st r \<le> 0 then 1 else 0) \<Longrightarrow>
   joined r f K n0 st"
  by (simp add: joined_def)

lemma mine_target:
  "mine r f K x \<Longrightarrow> target x = Some r \<or> (\<exists>b \<in> K. target x = Some b)"
  by (auto simp: mine_def)

lemma mine_user_fn: "mine r f K x \<Longrightarrow> user_fn x = Some f"
  by (auto simp: mine_def)

lemma foreign_target: "foreign r f K x \<Longrightarrow> target x \<noteq> Some r \<and> (\<forall>b \<in> K. target x \<noteq> Some b)"
  by (auto simp: foreign_def dest: target_in_chain)

lemma card_drop_one:
  assumes "finite K" "b \<in> K" "0 < p b" "q b = (0::nat)" "\<And>a. a \<in> K \<Longrightarrow> a \<noteq> b \<Longrightarrow> q a = p a"
  shows "int (card {a \<in> K. 0 < p a}) = int (card {a \<in> K. 0 < q a}) + 1"
proof -
  have "{a \<in> K. 0 < p a} = insert b {a \<in> K. 0 < q a}"
    using assms(2-5) by (auto; metis neq0_conv)
  moreover have "b \<notin> {a \<in> K. 0 < q a}" using assms(4) by simp
  moreover have "finite {a \<in> K. 0 < q a}" using assms(1) by simp
  ultimately show ?thesis by simp
qed

lemma card_same:
  assumes "\<And>a. a \<in> K \<Longrightarrow> (0 < q a) = (0 < p a)"
  shows "card {a \<in> K. 0 < (q a :: nat)} = card {a \<in> K. 0 < (p a :: nat)}"
  using assms by (intro arg_cong [where f = card]) auto

lemma joined_from:
  assumes "finite K" "r \<notin> K"
    and "\<And>y. y \<in> set P \<Longrightarrow> mine r f K y \<or> foreign r f K y"
    and "\<And>b. b \<in> K \<Longrightarrow> N b = int (cnt b P)"
    and "N r = int (cnt r P) + int (card {b \<in> K. 0 < cnt b P})"
    and "c = n0 + (if N r \<le> 0 then 1 else 0)"
    and "pending s = P" "counters s = N" "calls f s = c"
  shows "joined r f K n0 s"
  using assms by (simp add: joined_def)

lemma call_root:
  assumes "counters st r = 1 + m" "0 \<le> m"
  shows "pending (call (OnClose r (UserFn f)) st) = pending st"
    and "counters (call (OnClose r (UserFn f)) st) = (counters st)(r := m)"
    and "calls f (call (OnClose r (UserFn f)) st) = calls f st + (if m = 0 then 1 else 0)"
  using assms by (simp_all add: Let_def)

lemma call_socket:
  shows "pending (call (CloseServerSocket a k) st) = pending st @ [OnClose a k]"
    and "counters (call (CloseServerSocket a k) st) = counters st"
    and "calls f (call (CloseServerSocket a k) st) = calls f st"
  by (simp_all add: closeServerSocket_def)

lemma call_kid:
  assumes "counters st b = 1 + m" "0 \<le> m" "b \<noteq> r" "counters st r = 1 + m1" "0 \<le> m1"
  shows "pending (call (OnClose b (OnClose r (UserFn f))) st) = pending st"
    and "counters (call (OnClose b (OnClose r (UserFn f))) st) =
           (if m = 0 then (counters st)(b := 0, r := m1) else (counters st)(b := m))"
    and "calls f (call (OnClose b (OnClose r (UserFn f))) st) =
           calls f st + (if m = 0 \<and> m1 = 0 then 1 else 0)"
  using assms by (simp_all add: Let_def)

lemma call_kid_more:
  assumes "counters st b = 1 + m" "0 < m"
  shows "pending (call (OnClose b k) st) = pending st"
    and "counters (call (OnClose b k) st) = (counters st)(b := m)"
    and "calls f (call (OnClose b k) st) = calls f st"
  using assms by (simp_all add: Let_def)

lemma joined_fire:
  assumes J: "joined r f K n0 st" and i: "i < length (pending st)"
  shows "joined r f K n0
           (call (pending st ! i)
              (st\<lparr>pending := take i (pending st) @ drop (Suc i) (pending st)\<rparr>))"
proof -
  let ?ps = "pending st" and ?x = "pending st ! i"
  define rest where "rest = take i (pending st) @ drop (Suc i) (pending st)"
  define st0 where "st0 = st\<lparr>pending := rest\<rparr>"
  let ?kf = "OnClose r (UserFn f)"
  let ?card = "\<lambda>ps. int (card {b \<in> K. 0 < cnt b ps})"
  from J have fin: "finite K" and rK: "r \<notin> K"
    and forms: "\<And>y. y \<in> set ?ps \<Longrightarrow> mine r f K y \<or> foreign r f K y"
    and kidsC: "\<And>b. b \<in> K \<Longrightarrow> counters st b = int (cnt b ?ps)"
    and rootC: "counters st r = int (cnt r ?ps) + ?card ?ps"
    and callsC: "calls f st = n0 + (if counters st r \<le> 0 then 1 else 0)"
    by (simp_all add: joined_def)
  have x_in: "?x \<in> set ?ps" using i by simp
  have rest_forms: "\<And>y. y \<in> set rest \<Longrightarrow> mine r f K y \<or> foreign r f K y"
    using forms set_remove [of i ?ps] unfolding rest_def by blast
  have cr: "\<And>a. cnt a ?ps = cnt a rest + (if target ?x = Some a then 1 else 0)"
    using cnt_remove [OF i] unfolding rest_def by simp
  have p0 [simp]: "pending st0 = rest" and n0 [simp]: "counters st0 = counters st"
    and c0 [simp]: "calls f st0 = calls f st" by (simp_all add: st0_def)
  have goal: "joined r f K n0 (call ?x st0) \<Longrightarrow> ?thesis"
    by (simp add: st0_def rest_def)
  consider (root) "?x = ?kf" | (rootS) "?x = CloseServerSocket r (UserFn f)"
    | (kid) b where "b \<in> K" "?x = OnClose b ?kf"
    | (kidS) b where "b \<in> K" "?x = CloseServerSocket b ?kf"
    | (other) "foreign r f K ?x"
    using forms [OF x_in] by (auto simp: mine_def)
  then have "joined r f K n0 (call ?x st0)"
  proof cases
    case root
    have c_r: "cnt r ?ps = cnt r rest + 1" using cr [of r] root by simp
    have c_k: "\<And>b. b \<in> K \<Longrightarrow> cnt b rest = cnt b ?ps" using cr root rK by auto
    have cardeq: "?card rest = ?card ?ps" using c_k by (simp cong: conj_cong)
    let ?m = "int (cnt r rest) + ?card rest"
    have cnt0: "counters st0 r = 1 + ?m" using rootC c_r cardeq by simp
    have m0: "0 \<le> ?m" by simp
    have old: "calls f st = n0" using callsC rootC c_r by simp
    note pr = call_root [OF cnt0 m0, of f]
    show ?thesis unfolding root
    proof (rule joined_from [OF fin rK _ _ _ _ pr(1) pr(2) pr(3)])
      show "\<And>y. y \<in> set (pending st0) \<Longrightarrow> mine r f K y \<or> foreign r f K y"
        using rest_forms by simp
      show "\<And>b. b \<in> K \<Longrightarrow> ((counters st0)(r := ?m)) b = int (cnt b (pending st0))"
        using kidsC c_k rK by auto
      show "((counters st0)(r := ?m)) r =
              int (cnt r (pending st0)) + ?card (pending st0)" by simp
      show "calls f st0 + (if ?m = 0 then 1 else 0) =
              n0 + (if ((counters st0)(r := ?m)) r \<le> 0 then 1 else 0)"
        using old by simp
    qed
  next
    case rootS
    have c_a: "\<And>a. cnt a (rest @ [?kf]) = cnt a ?ps" using cr rootS by (simp add: cnt_append cnt_Cons)
    note pr = call_socket(1) [where a = r and k = "UserFn f" and st = st0]
      call_socket(2) [where a = r and k = "UserFn f" and st = st0]
      call_socket(3) [where f = f and a = r and k = "UserFn f" and st = st0]
    show ?thesis unfolding rootS
    proof (rule joined_from [OF fin rK _ _ _ _ pr(1) pr(2) pr(3)])
      show "\<And>y. y \<in> set (pending st0 @ [?kf]) \<Longrightarrow> mine r f K y \<or> foreign r f K y"
        using rest_forms by (auto simp: mine_def)
      show "\<And>b. b \<in> K \<Longrightarrow> counters st0 b = int (cnt b (pending st0 @ [?kf]))"
        using kidsC c_a by simp
      show "counters st0 r = int (cnt r (pending st0 @ [?kf])) + ?card (pending st0 @ [?kf])"
        using rootC c_a by simp
      show "calls f st0 = n0 + (if counters st0 r \<le> 0 then 1 else 0)"
        using callsC by simp
    qed
  next
    case (kid b)
    have br: "b \<noteq> r" using kid(1) rK by auto
    have c_b: "cnt b ?ps = cnt b rest + 1" using cr [of b] kid by simp
    have c_o: "\<And>a. a \<noteq> b \<Longrightarrow> cnt a rest = cnt a ?ps" using cr kid by auto
    have cntb: "counters st0 b = 1 + int (cnt b rest)" using kidsC [OF kid(1)] c_b by simp
    have old_pos: "0 < ?card ?ps"
    proof -
      have "b \<in> {a \<in> K. 0 < cnt a ?ps}" using kid(1) c_b by simp
      moreover have "finite {a \<in> K. 0 < cnt a ?ps}" using fin by simp
      ultimately have "card {a \<in> K. 0 < cnt a ?ps} \<noteq> 0" by (metis card_0_eq empty_iff)
      then show ?thesis by simp
    qed
    have old: "calls f st = n0" using callsC rootC old_pos by simp
    show ?thesis
    proof (cases "cnt b rest = 0")
      case True
      have cd: "?card ?ps = ?card rest + 1"
        using card_drop_one [OF fin kid(1), of "\<lambda>a. cnt a ?ps" "\<lambda>a. cnt a rest"] c_b True c_o
        by simp
      let ?m1 = "int (cnt r rest) + ?card rest"
      have cntr: "counters st0 r = 1 + ?m1" using rootC c_o [of r] br cd by simp
      have cntb0: "counters st0 b = 1 + 0" using cntb True by simp
      have pr: "pending (call (OnClose b ?kf) st0) = pending st0"
        "counters (call (OnClose b ?kf) st0) = (counters st0)(b := 0, r := ?m1)"
        "calls f (call (OnClose b ?kf) st0) = calls f st0 + (if ?m1 = 0 then 1 else 0)"
        using call_kid [OF cntb0 _ br cntr, of f] by simp_all
      show ?thesis unfolding kid(2)
      proof (rule joined_from [OF fin rK _ _ _ _ pr(1) pr(2) pr(3)])
        show "\<And>y. y \<in> set (pending st0) \<Longrightarrow> mine r f K y \<or> foreign r f K y"
          using rest_forms by simp
        show "\<And>a. a \<in> K \<Longrightarrow> ((counters st0)(b := 0, r := ?m1)) a = int (cnt a (pending st0))"
          using kidsC c_o True rK by auto
        show "((counters st0)(b := 0, r := ?m1)) r =
                int (cnt r (pending st0)) + ?card (pending st0)" by simp
        show "calls f st0 + (if ?m1 = 0 then 1 else 0) =
                n0 + (if ((counters st0)(b := 0, r := ?m1)) r \<le> 0 then 1 else 0)"
          using old by simp
      qed
    next
      case False
      then have pos: "0 < int (cnt b rest)" by simp
      have cd: "?card rest = ?card ?ps"
        using card_same [of K "\<lambda>a. cnt a rest" "\<lambda>a. cnt a ?ps"] c_o c_b False
        by (metis (no_types, lifting) add_gr_0 neq0_conv)
      note pr = call_kid_more(1) [OF cntb pos, where k = ?kf]
        call_kid_more(2) [OF cntb pos, where k = ?kf]
        call_kid_more(3) [OF cntb pos, where k = ?kf and f = f]
      show ?thesis unfolding kid(2)
      proof (rule joined_from [OF fin rK _ _ _ _ pr(1) pr(2) pr(3)])
        show "\<And>y. y \<in> set (pending st0) \<Longrightarrow> mine r f K y \<or> foreign r f K y"
          using rest_forms by simp
        show "\<And>a. a \<in> K \<Longrightarrow>
                ((counters st0)(b := int (cnt b rest))) a = int (cnt a (pending st0))"
          using kidsC c_o by auto
        show "((counters st0)(b := int (cnt b rest))) r =
                int (cnt r (pending st0)) + ?card (pending st0)"
          using rootC c_o [of r] br cd by simp
        show "calls f st0 =
                n0 + (if ((counters st0)(b := int (cnt b rest))) r \<le> 0 then 1 else 0)"
          using callsC br by simp
      qed
    qed
  next
    case (kidS b)
    let ?y = "OnClose b ?kf"
    have c_a: "\<And>a. cnt a (rest @ [?y]) = cnt a ?ps" using cr kidS by (simp add: cnt_append cnt_Cons)
    note pr = call_socket(1) [where a = b and k = ?kf and st = st0]
      call_socket(2) [where a = b and k = ?kf and st = st0]
      call_socket(3) [where f = f and a = b and k = ?kf and st = st0]
    show ?thesis unfolding kidS(2)
    proof (rule joined_from [OF fin rK _ _ _ _ pr(1) pr(2) pr(3)])
      show "\<And>y. y \<in> set (pending st0 @ [?y]) \<Longrightarrow> mine r f K y \<or> foreign r f K y"
        using rest_forms kidS(1) by (auto simp: mine_def)
      show "\<And>a. a \<in> K \<Longrightarrow> counters st0 a = int (cnt a (pending st0 @ [?y]))"
        using kidsC c_a by simp
      show "counters st0 r = int (cnt r (pending st0 @ [?y])) + ?card (pending st0 @ [?y])"
        using rootC c_a by simp
      show "calls f st0 = n0 + (if counters st0 r \<le> 0 then 1 else 0)"
        using callsC by simp
    qed
  next
    case other
    from call_frame [of ?x st0 f] obtain ys where
      fr: "\<And>a. a \<notin> set (chain ?x) \<Longrightarrow> counters (call ?x st0) a = counters st0 a"
      and ys: "pending (call ?x st0) = pending st0 @ ys"
        "\<And>y. y \<in> set ys \<Longrightarrow> set (chain y) \<subseteq> set (chain ?x) \<and> user_fn y = user_fn ?x"
      and cf: "user_fn ?x \<noteq> Some f \<Longrightarrow> calls f (call ?x st0) = calls f st0"
      by blast
    have ys_foreign: "\<And>y. y \<in> set ys \<Longrightarrow> foreign r f K y"
      using ys(2) other unfolding foreign_def by (metis subsetD)
    have tx: "target ?x \<noteq> Some r" "\<And>b. b \<in> K \<Longrightarrow> target ?x \<noteq> Some b"
      using foreign_target [OF other] by auto
    have ty: "\<And>a. a = r \<or> a \<in> K \<Longrightarrow> cnt a ys = 0"
      using ys_foreign foreign_target by (intro cnt_zero) blast
    have c_a: "\<And>a. a = r \<or> a \<in> K \<Longrightarrow> cnt a (rest @ ys) = cnt a ?ps"
      using cr tx ty by (auto simp: cnt_append)
    have cardeq: "?card (rest @ ys) = ?card ?ps"
      using c_a by (simp cong: conj_cong)
    have chr: "r \<notin> set (chain ?x)" "\<And>b. b \<in> K \<Longrightarrow> b \<notin> set (chain ?x)"
      using other by (auto simp: foreign_def)
    have uf: "user_fn ?x \<noteq> Some f" using other by (simp add: foreign_def)
    show ?thesis
    proof (rule joined_from [OF fin rK _ _ _ _ ys(1) refl refl])
      show "\<And>y. y \<in> set (pending st0 @ ys) \<Longrightarrow> mine r f K y \<or> foreign r f K y"
        using rest_forms ys_foreign by auto
      show "\<And>b. b \<in> K \<Longrightarrow> counters (call ?x st0) b = int (cnt b (pending st0 @ ys))"
        using fr chr(2) kidsC c_a by simp
      show "counters (call ?x st0) r =
              int (cnt r (pending st0 @ ys)) + ?card (pending st0 @ ys)"
        using fr [OF chr(1)] rootC c_a [of r] cardeq by simp
      show "calls f (call ?x st0) = n0 + (if counters (call ?x st0) r \<le> 0 then 1 else 0)"
        using cf [OF uf] fr [OF chr(1)] callsC by simp
    qed
  qed
  then show ?thesis by (rule goal)
qed



lemma joined_run:
  "joined r f K n0 st \<Longrightarrow> run sched st = Some st1 \<Longrightarrow> joined r f K n0 st1"
proof (induction sched arbitrary: st)
  case Nil
  then show ?case by simp
next
  case (Cons i sched)
  from Cons.prems(2) have i: "i < length (pending st)"
    by (auto simp: fire_def split: if_splits)
  let ?s = "call (pending st ! i) (st\<lparr>pending := take i (pending st) @ drop (Suc i) (pending st)\<rparr>)"
  have "run sched ?s = Some st1" using Cons.prems(2) i by (simp add: fire_def)
  moreover have "joined r f K n0 ?s" using Cons.prems(1) i by (rule joined_fire)
  ultimately show ?case by (rule Cons.IH [rotated])
qed

lemma foreign_user_fn: "foreign r f K x \<Longrightarrow> user_fn x \<noteq> Some f"
  by (simp add: foreign_def)

lemma joined_calls:
  assumes "joined r f K n0 st"
  shows "calls f st = n0 + (if awaiting f st = [] then 1 else 0)"
proof -
  let ?ps = "pending st"
  from assms have fin: "finite K" and rK: "r \<notin> K"
    and forms: "\<And>y. y \<in> set ?ps \<Longrightarrow> mine r f K y \<or> foreign r f K y"
    and rootC: "counters st r = int (cnt r ?ps) + int (card {b \<in> K. 0 < cnt b ?ps})"
    and callsC: "calls f st = n0 + (if counters st r \<le> 0 then 1 else 0)"
    by (simp_all add: joined_def)
  show ?thesis
  proof (cases "awaiting f st = []")
    case True
    then have none: "\<And>y. y \<in> set ?ps \<Longrightarrow> user_fn y \<noteq> Some f"
      by (auto simp: awaiting_def filter_empty_conv)
    then have allf: "\<And>y. y \<in> set ?ps \<Longrightarrow> foreign r f K y"
      using forms mine_user_fn by blast
    have "cnt r ?ps = 0" using allf foreign_target by (intro cnt_zero) blast
    moreover have "\<And>b. b \<in> K \<Longrightarrow> cnt b ?ps = 0"
      using allf foreign_target by (intro cnt_zero) blast
    then have "{b \<in> K. 0 < cnt b ?ps} = {}" by auto
    then have "card {b \<in> K. 0 < cnt b ?ps} = 0" by (simp only: card.empty)
    ultimately have "counters st r = 0" using rootC by simp
    then show ?thesis using callsC True by simp
  next
    case False
    then obtain y where y: "y \<in> set ?ps" "user_fn y = Some f"
      by (auto simp: awaiting_def filter_empty_conv)
    then have "mine r f K y" using forms foreign_user_fn by blast
    then consider "target y = Some r" | b where "b \<in> K" "target y = Some b"
      using mine_target by blast
    then have "0 < counters st r"
    proof cases
      case 1
      then have "0 < cnt r ?ps" using y(1) by (rule cnt_pos [rotated])
      then show ?thesis using rootC by simp
    next
      case 2
      then have "0 < cnt b ?ps" using y(1) by (intro cnt_pos)
      then have "b \<in> {b \<in> K. 0 < cnt b ?ps}" using 2(1) by simp
      moreover have "finite {b \<in> K. 0 < cnt b ?ps}" using fin by simp
      ultimately have "card {b \<in> K. 0 < cnt b ?ps} \<noteq> 0" by (metis card_0_eq empty_iff)
      then show ?thesis using rootC by simp
    qed
    then show ?thesis using callsC False by simp
  qed
qed

lemma cnt_replicate:
  "cnt a (replicate n x) = (if target x = Some a then n else 0)"
  by (induction n) (simp_all add: cnt_Cons)

lemma cnt_leafPending:
  "cnt a (leafPending b k ch) = (if a = b then nServer ch + nConns ch + 1 else 0)"
  by (auto simp: leafPending_def serverPending_def connsPending_def nServer_def nConns_def
        cnt_append cnt_Cons cnt_replicate split: option.splits)

lemma cnt_own_part:
  "cnt a (serverPending c k ch @ connsPending c k ch @ [OnClose c k]) =
     (if a = c then nServer ch + nConns ch + 1 else 0)"
  using cnt_leafPending [of a c k ch] by (simp add: leafPending_def)

lemma cnt_kidsPending:
  "distinct ks \<Longrightarrow>
   cnt a (kidsPending c k st ks) =
     (if a \<in> set ks then nServer (chans st a) + nConns (chans st a) + 1 else 0)"
  by (induction ks) (auto simp: kidsPending_def cnt_append cnt_leafPending)

lemma mine_leafPending:
  "y \<in> set (leafPending r (UserFn f) ch) \<Longrightarrow> mine r f K y"
  by (auto simp: leafPending_def serverPending_def connsPending_def mine_def
        split: option.splits if_splits)

lemma mine_kidsPending:
  "y \<in> set (kidsPending r (UserFn f) st ks) \<Longrightarrow> set ks \<subseteq> K \<Longrightarrow> mine r f K y"
  by (auto simp: kidsPending_def leafPending_def serverPending_def connsPending_def mine_def
        split: option.splits if_splits)

lemma calls_append:
  "trace st1 = trace st @ es \<Longrightarrow> Called f \<notin> set es \<Longrightarrow> calls f st1 = calls f st"
proof -
  assume a: "trace st1 = trace st @ es" "Called f \<notin> set es"
  have "filter (\<lambda>e. e = Called f) es = []" using a(2) by (induction es) auto
  then show ?thesis using a(1) by (simp add: calls_def)
qed

lemma no_call_leafTrace: "Called f \<notin> set (leafTrace b k ch)"
  by (auto simp: leafTrace_def serverTrace_def connsTrace_def split: option.splits)

lemma no_call_kidsTrace: "Called f \<notin> set (kidsTrace c k st ks)"
  by (auto simp: kidsTrace_def no_call_leafTrace)

lemma joined_closeTop:
  assumes wf: "wf_hier st c" and live: "\<not> destroyed (chans st c)"
    and old: "\<forall>x \<in> set (pending st).
                (\<forall>a \<in> set (chain x). destroyed (chans st a)) \<and> user_fn x \<noteq> Some f"
  shows "joined c f (set (kids st c)) (calls f st) (closeTop c (UserFn f) st)"
proof -
  let ?K = "set (kids st c)" and ?k = "UserFn f" and ?ch = "chans st c"
  let ?s = "closeTop c ?k st"
  note kp = kids_props [OF wf]
  note pr = closeTop_proj [OF wf, of ?k]
  let ?ownP = "serverPending c ?k ?ch @ connsPending c ?k ?ch @ [OnClose c ?k]"
  have pend: "pending ?s = pending st @ serverPending c ?k ?ch @ connsPending c ?k ?ch @
                 kidsPending c ?k st (kids st c) @ [OnClose c ?k]"
    by (rule pr(3))
  have old_foreign: "\<And>x. x \<in> set (pending st) \<Longrightarrow> foreign c f ?K x"
    using old live kp(3) unfolding foreign_def by blast
  have old0: "\<And>a. a = c \<or> a \<in> ?K \<Longrightarrow> cnt a (pending st) = 0"
    using old_foreign foreign_target by (intro cnt_zero) blast
  have cnt_s: "\<And>a. cnt a (pending ?s) =
      cnt a (pending st) + cnt a ?ownP + cnt a (kidsPending c ?k st (kids st c))"
    unfolding pend by (simp add: cnt_append cnt_Cons)
  have cnt_c: "cnt c (pending ?s) = nServer ?ch + nConns ?ch + 1"
    using cnt_s [of c] old0 [of c] cnt_own_part [of c c ?k ?ch]
      cnt_kidsPending [OF kp(1), of c c ?k st] kp(2) by simp
  have cnt_k: "\<And>b. b \<in> ?K \<Longrightarrow> cnt b (pending ?s) = nServer (chans st b) + nConns (chans st b) + 1"
  proof -
    fix b assume b: "b \<in> ?K"
    then have "b \<noteq> c" using kp(2) by auto
    then show "cnt b (pending ?s) = nServer (chans st b) + nConns (chans st b) + 1"
      using cnt_s [of b] old0 [of b] b cnt_own_part [of b c ?k ?ch]
        cnt_kidsPending [OF kp(1), of b c ?k st] by simp
  qed
  have "{b \<in> ?K. 0 < cnt b (pending ?s)} = ?K" using cnt_k by auto
  then have card: "card {b \<in> ?K. 0 < cnt b (pending ?s)} = length (kids st c)"
    using kp(1) by (simp add: distinct_card)
  have tr: "calls f ?s = calls f st"
    by (rule calls_append [OF pr(2)])
       (auto simp: serverTrace_def connsTrace_def no_call_kidsTrace split: option.splits)
  show ?thesis
  proof (rule joinedI)
    show "finite ?K" by simp
    show "c \<notin> ?K" by (rule kp(2))
    show "\<And>x. x \<in> set (pending ?s) \<Longrightarrow> mine c f ?K x \<or> foreign c f ?K x"
    proof -
      fix x assume "x \<in> set (pending ?s)"
      then consider "x \<in> set (pending st)" | "x \<in> set (leafPending c ?k ?ch)"
        | "x \<in> set (kidsPending c ?k st (kids st c))"
        unfolding pend leafPending_def by auto
      then show "mine c f ?K x \<or> foreign c f ?K x"
        using old_foreign mine_leafPending mine_kidsPending [OF _ subset_refl] by cases blast+
    qed
    show "\<And>b. b \<in> ?K \<Longrightarrow> counters ?s b = int (cnt b (pending ?s))"
      using cnt_k kp(2) by (auto simp: pr(4) own_def)
    show "counters ?s c = int (cnt c (pending ?s)) +
            int (card {b \<in> ?K. 0 < cnt b (pending ?s)})"
      using cnt_c card by (simp add: pr(4) own_def)
    show "calls f ?s = calls f st + (if counters ?s c \<le> 0 then 1 else 0)"
      using tr by (simp add: pr(4) own_def)
  qed
qed



lemma call_decrements:
  "c \<notin> set (chain k) \<Longrightarrow> counters (call (OnClose c k) s) c = counters s c - 1"
proof -
  assume c: "c \<notin> set (chain k)"
  let ?n = "counters s c - 1"
  let ?s1 = "s\<lparr>counters := (counters s)(c := ?n)\<rparr>"
  let ?s2 = "if ?n < 0 then emit (LogError ''closed more channel sockets than expected'') ?s1
             else ?s1"
  have s2: "counters ?s2 c = ?n" by simp
  show ?thesis
  proof (cases "?n \<le> 0 \<and> is_function k")
    case True
    then have "call (OnClose c k) s = call k ?s2" by (simp add: Let_def)
    moreover have "counters (call k ?s2) c = counters ?s2 c"
      using call_frame [of k ?s2 0] c by blast
    ultimately show ?thesis using s2 by simp
  next
    case False
    then have "call (OnClose c k) s = ?s1 \<or> call (OnClose c k) s = ?s2"
      by (auto simp: Let_def)
    then show ?thesis using s2 by auto
  qed
qed

lemma length_serverPending: "length (serverPending c k ch) = nServer ch"
  by (simp add: serverPending_def nServer_def split: option.splits)

lemma length_connsPending: "length (connsPending c k ch) = nConns ch"
  by (simp add: connsPending_def nConns_def split: option.splits)

lemma length_leafPending: "length (leafPending c k ch) = nServer ch + nConns ch + 1"
  by (simp add: leafPending_def length_serverPending length_connsPending)

lemma length_kidsPending:
  "length (kidsPending c k st ks) =
     sum_list (map (\<lambda>b. nServer (chans st b) + nConns (chans st b) + 1) ks)"
  by (induction ks) (simp_all add: kidsPending_def length_leafPending)

lemma awaiting_closeTop:
  assumes wf: "wf_hier st c"
    and old: "\<forall>x \<in> set (pending st). user_fn x \<noteq> Some f"
  shows "awaiting f (closeTop c (UserFn f) st) =
           serverPending c (UserFn f) (chans st c) @ connsPending c (UserFn f) (chans st c) @
           kidsPending c (UserFn f) st (kids st c) @ [OnClose c (UserFn f)]"
proof -
  let ?new = "serverPending c (UserFn f) (chans st c) @ connsPending c (UserFn f) (chans st c) @
           kidsPending c (UserFn f) st (kids st c) @ [OnClose c (UserFn f)]"
  have "\<And>y. y \<in> set ?new \<Longrightarrow> mine c f (set (kids st c)) y"
  proof -
    fix y assume "y \<in> set ?new"
    then consider "y \<in> set (leafPending c (UserFn f) (chans st c))"
      | "y \<in> set (kidsPending c (UserFn f) st (kids st c))"
      unfolding leafPending_def by auto
    then show "mine c f (set (kids st c)) y"
      using mine_leafPending mine_kidsPending [OF _ subset_refl] by cases blast+
  qed
  then have new: "\<forall>y \<in> set ?new. user_fn y = Some f" using mine_user_fn by blast
  have "filter (\<lambda>x. user_fn x = Some f) (pending st) = []"
    using old by (simp add: filter_empty_conv)
  moreover have "filter (\<lambda>x. user_fn x = Some f) ?new = ?new"
    using new by (simp only: filter_id_conv)
  ultimately show ?thesis
    unfolding awaiting_def closeTop_proj(3) [OF wf] by (simp only: filter_append append_Nil)
qed

lemma close_destroyed:
  "destroyed (chans st c) \<Longrightarrow>
   close (Suc n) st c k = Some (Inl (AssertionError ''TChannel double close''), st)"
  by simp

section \<open>The example stores, step by step\<close>

lemmas op_defs = TChannel_def makeSubChannel_def listen_def getServer_def
  onServerSocketListening_def onServerSocketConnection_def Let_def extend_options_def
  empty_options_def extend_reqopts_def empty_reqopts_def addOnePeer_def propagate_def
  string_of_nat.simps digit_char_def update_after_delete get_prop_def
  object_prototype_keys_def

lemma ex_top_facts:
  shows "chans ex_top 0 =
           \<lparr>options = empty_options,
            requestDefaults = empty_reqopts\<lparr>timeout := Some 100\<rparr>,
            host = None, requestedPort = None, hostPort = None, serviceName = [],
            topChannel = None, subChannels = Some [],
            handler = Some (TChannelServiceNameHandler 0), peers = 0,
            listened = False, listening = False, destroyed = False, tracer = False,
            serverSocket = None, serverConnections = None\<rparr>"
    and "nextChan ex_top = Suc 0"
    and "nextPool ex_top = Suc 0"
    and "nextConn ex_top = 0"
    and "pending ex_top = []"
    and "trace ex_top = []"
    and "counters ex_top = (\<lambda>c. 0)"
  by (simp_all add: ex_top_def empty_state_def blank_channel_def op_defs)

lemma ex_sub_facts:
  shows "chans ex_sub 0 = (chans ex_top 0)\<lparr>subChannels := Some [(''svc'', Suc 0)]\<rparr>"
    and "chans ex_sub (Suc 0) =
           \<lparr>options = empty_options,
            requestDefaults = empty_reqopts\<lparr>timeout := Some 100\<rparr>,
            host = None, requestedPort = None, hostPort = None, serviceName = ''svc'',
            topChannel = Some 0, subChannels = None,
            handler = Some (EndpointHandler ''svc''), peers = Suc 0,
            listened = False, listening = False, destroyed = False, tracer = False,
            serverSocket = None, serverConnections = None\<rparr>"
    and "nextChan ex_sub = Suc (Suc 0)"
    and "nextPool ex_sub = Suc (Suc 0)"
    and "nextConn ex_sub = 0"
    and "pending ex_sub = []"
    and "trace ex_sub =
           [PeersAdd 0 ''10.0.0.9:4040'', PeersAddPeer (Suc 0) (PeerOf 0 ''10.0.0.9:4040'')]"
    and "counters ex_sub = (\<lambda>c. 0)"
  by (simp_all add: ex_sub_def ex_sub_options_def op_defs ex_top_facts)

lemma ex_listened_facts:
  shows "chans ex_listened 0 =
           (chans ex_sub 0)\<lparr>host := Some ''127.0.0.1'', requestedPort := Some 0,
             listened := True, serverSocket := Some \<lparr>address = None\<rparr>,
             serverConnections := Some []\<rparr>"
    and "chans ex_listened (Suc 0) = chans ex_sub (Suc 0)"
    and "nextChan ex_listened = Suc (Suc 0)"
    and "nextPool ex_listened = Suc (Suc 0)"
    and "nextConn ex_listened = 0"
    and "pending ex_listened = []"
    and "trace ex_listened =
           trace ex_sub @ [CreateServer 0, ServerListen 0 0 ''127.0.0.1'' (UserFn (Suc 0))]"
    and "counters ex_listened = (\<lambda>c. 0)"
  by (simp_all add: ex_listened_def op_defs ex_sub_facts ex_top_facts)

lemma ex_bound_facts:
  shows "chans ex_bound 0 =
           (chans ex_listened 0)\<lparr>serverSocket := Some \<lparr>address = Some 4040\<rparr>\<rparr>"
    and "chans ex_bound (Suc 0) = chans ex_listened (Suc 0)"
    and "nextChan ex_bound = Suc (Suc 0)"
    and "nextPool ex_bound = Suc (Suc 0)"
    and "nextConn ex_bound = 0"
    and "pending ex_bound = []"
    and "trace ex_bound = trace ex_listened"
    and "counters ex_bound = (\<lambda>c. 0)"
  by (simp_all add: ex_bound_def ex_listened_facts)

lemma ex_listening_facts:
  shows "chans ex_listening 0 =
           (chans ex_bound 0)\<lparr>hostPort := Some ''127.0.0.1:4040'', listening := True\<rparr>"
    and "chans ex_listening (Suc 0) =
           (chans ex_bound (Suc 0))\<lparr>hostPort := Some ''127.0.0.1:4040''\<rparr>"
    and "nextChan ex_listening = Suc (Suc 0)"
    and "nextPool ex_listening = Suc (Suc 0)"
    and "nextConn ex_listening = 0"
    and "pending ex_listening = []"
    and "trace ex_listening = trace ex_bound @ [Emit 0 EvListening]"
    and "counters ex_listening = (\<lambda>c. 0)"
  by (simp_all add: ex_listening_def op_defs ex_bound_facts ex_listened_facts ex_sub_facts
        ex_top_facts)

lemma ex_conn1_facts:
  shows "chans ex_conn1 0 =
           (chans ex_listening 0)\<lparr>serverConnections := Some [(''10.0.0.1:5000'', 0)]\<rparr>"
    and "chans ex_conn1 (Suc 0) = chans ex_listening (Suc 0)"
    and "nextChan ex_conn1 = Suc (Suc 0)"
    and "nextPool ex_conn1 = Suc (Suc 0)"
    and "nextConn ex_conn1 = Suc 0"
    and "pending ex_conn1 = []"
    and "trace ex_conn1 =
           trace ex_listening @
           [NewConnection 0 0 (Suc 0) ''10.0.0.1:5000'', ConnOnSpan 0,
            SockOnClose (Suc 0) 0 ''10.0.0.1:5000'', Emit 0 (EvConnection 0)]"
    and "counters ex_conn1 = (\<lambda>c. 0)"
  by (simp_all add: ex_conn1_def ex_sock1_def op_defs ex_listening_facts ex_bound_facts
        ex_listened_facts ex_sub_facts ex_top_facts)

lemma ex_conn2_facts:
  shows "chans ex_conn2 0 =
           (chans ex_conn1 0)\<lparr>serverConnections := Some [(''10.0.0.1:5000'', Suc 0)]\<rparr>"
    and "chans ex_conn2 (Suc 0) = chans ex_conn1 (Suc 0)"
    and "nextChan ex_conn2 = Suc (Suc 0)"
    and "nextPool ex_conn2 = Suc (Suc 0)"
    and "nextConn ex_conn2 = Suc (Suc 0)"
    and "pending ex_conn2 = []"
    and "trace ex_conn2 =
           trace ex_conn1 @
           [NewConnection (Suc 0) 0 2 ''10.0.0.1:5000'', ConnOnSpan (Suc 0),
            ResetAll 0 (SocketClosedError ''duplicate remoteAddr incoming conn''),
            SockOnClose 2 0 ''10.0.0.1:5000'', Emit 0 (EvConnection (Suc 0))]"
    and "counters ex_conn2 = (\<lambda>c. 0)"
  by (simp_all add: ex_conn2_def ex_sock2_def op_defs ex_conn1_facts ex_listening_facts
        ex_bound_facts ex_listened_facts ex_sub_facts ex_top_facts)

lemma ex_custom_facts:
  shows "chans ex_custom 0 =
           \<lparr>options = empty_options,
            requestDefaults = empty_reqopts\<lparr>timeout := Some 100\<rparr>,
            host = None, requestedPort = None, hostPort = None, serviceName = [],
            topChannel = None, subChannels = Some [],
            handler = Some (CustomHandler (Some ''relay'')), peers = 0,
            listened = False, listening = False, destroyed = False, tracer = False,
            serverSocket = None, serverConnections = None\<rparr>"
  by (simp add: ex_custom_def empty_state_def blank_channel_def op_defs)

lemma ex_top_closed_facts:
  shows "close 1 ex_top 0 (UserFn 9) = Some (Inr (), ex_top_closed)"
    and "chans ex_top_closed 0 = (chans ex_top 0)\<lparr>destroyed := True\<rparr>"
    and "trace ex_top_closed = [PeersClose 0 (OnClose 0 (UserFn 9))]"
    and "pending ex_top_closed = [OnClose 0 (UserFn 9)]"
    and "counters ex_top_closed 0 = 1"
  by (simp_all add: ex_top_closed_def Let_def closeServer_def closeConns_def closePeers_def
        ex_top_facts)

lemmas ex_facts = ex_conn2_facts ex_conn1_facts ex_listening_facts ex_bound_facts
  ex_listened_facts ex_sub_facts ex_top_facts

lemma wf_ex_conn2: "wf_hier ex_conn2 0"
  by (simp add: wf_hier_def keys_ok_def ex_facts)

lemma wf_ex_bound: "wf_hier ex_bound 0"
  by (simp add: wf_hier_def keys_ok_def ex_facts)

lemma ex_bound_closed_facts:
  shows "chans ex_bound_closed 0 = (chans ex_bound 0)\<lparr>destroyed := True\<rparr>"
  by (simp add: ex_bound_closed_def closeTop_proj(1) [OF wf_ex_bound])

lemma ex_late_facts:
  shows "fst (makeSubChannel 100 ex_listening 0 (Some ex_late_options)) = Inr 2"
    and "hostPort (chans (snd (makeSubChannel 100 ex_listening 0 (Some ex_late_options))) 2) =
           Some ''127.0.0.1:4040''"
  by (simp_all add: ex_late_options_def op_defs ex_facts)

lemma ex_two_facts:
  shows "chans ex_two 0 =
           (chans ex_conn2 0)\<lparr>subChannels := Some [(''svc'', Suc 0), (''late'', 2)]\<rparr>"
    and "chans ex_two (Suc 0) = chans ex_conn2 (Suc 0)"
    and "chans ex_two 2 =
           \<lparr>options = empty_options,
            requestDefaults = empty_reqopts\<lparr>timeout := Some 100\<rparr>,
            host = None, requestedPort = None, hostPort = Some ''127.0.0.1:4040'',
            serviceName = ''late'', topChannel = Some 0, subChannels = None,
            handler = Some (EndpointHandler ''late''), peers = 2,
            listened = False, listening = False, destroyed = False, tracer = False,
            serverSocket = None, serverConnections = None\<rparr>"
    and "pending ex_two = []"
    and "trace ex_two = trace ex_conn2"
    and "counters ex_two = (\<lambda>c. 0)"
  by (simp_all add: ex_two_def ex_late_options_def op_defs ex_facts)

lemma ex_two_closing_facts:
  shows "chans ex_two_closing 0 = chans ex_two 0"
    and "chans ex_two_closing (Suc 0) = chans ex_two (Suc 0)"
    and "chans ex_two_closing 2 = (chans ex_two 2)\<lparr>destroyed := True\<rparr>"
    and "pending ex_two_closing = [OnClose 2 (UserFn 5)]"
    and "trace ex_two_closing = trace ex_two @ [PeersClose 2 (OnClose 2 (UserFn 5))]"
    and "counters ex_two_closing = (\<lambda>c. 0)(2 := 1)"
  by (simp_all add: ex_two_closing_def Let_def closeServer_def closeConns_def closePeers_def
        ex_two_facts)

lemma wf_ex_two_closing: "wf_hier ex_two_closing 0"
  by (simp add: wf_hier_def keys_ok_def ex_two_closing_facts ex_two_facts ex_facts)

section \<open>Invariants of the store\<close>

lemma wf_store_iff:
  "wf_store st \<longleftrightarrow>
     (\<forall>c < nextChan st.
        keys_ok (chans st c) \<and>
        (\<forall>subs. subChannels (chans st c) = Some subs \<longrightarrow>
           distinct (map fst subs) \<and> distinct (map snd subs) \<and>
           (\<forall>b \<in> set (map snd subs). b < nextChan st \<and> subChannels (chans st b) = None)))"
  unfolding wf_store_def by (auto split: option.splits)

lemma wf_storeD:
  assumes "wf_store st" "c < nextChan st"
  shows "keys_ok (chans st c)"
    and "subChannels (chans st c) = Some subs \<Longrightarrow>
         distinct (map fst subs) \<and> distinct (map snd subs) \<and>
         (\<forall>b \<in> set (map snd subs). b < nextChan st \<and> subChannels (chans st b) = None)"
  using assms unfolding wf_store_iff by blast+

lemma wf_storeI:
  assumes "\<And>c. c < nextChan st \<Longrightarrow> keys_ok (chans st c)"
    and "\<And>c subs. c < nextChan st \<Longrightarrow> subChannels (chans st c) = Some subs \<Longrightarrow>
         distinct (map fst subs) \<and> distinct (map snd subs) \<and>
         (\<forall>b \<in> set (map snd subs). b < nextChan st \<and> subChannels (chans st b) = None)"
  shows "wf_store st"
  unfolding wf_store_iff using assms by blast

lemma nextChan_addOnePeer [simp]: "nextChan (addOnePeer self chan p st) = nextChan st"
  by (simp add: addOnePeer_def split: peerspec.splits)

lemma nextChan_fold_addOnePeer [simp]:
  "nextChan (fold (addOnePeer self chan) ps st) = nextChan st"
  by (induction ps arbitrary: st) simp_all

lemma wf_store_hier:
  assumes wf: "wf_store st" and c: "c < nextChan st"
  shows "wf_hier st c"
proof (cases "subChannels (chans st c)")
  case None
  then show ?thesis using wf_storeD(1) [OF wf c] by (simp add: wf_hier_def)
next
  case (Some subs)
  note d = wf_storeD(2) [OF wf c Some]
  have "keys_ok (chans st b)" if "b \<in> set (map snd subs)" for b
    using d that wf_storeD(1) [OF wf] by blast
  moreover have "c \<notin> set (map snd subs)" using d Some by auto
  ultimately show ?thesis using d Some wf_storeD(1) [OF wf c] by (simp add: wf_hier_def)
qed

lemma same_shape_refl [simp]: "same_shape st st"
  by (simp add: same_shape_def)

lemma same_shape_trans: "same_shape a b \<Longrightarrow> same_shape b c \<Longrightarrow> same_shape a c"
  by (simp add: same_shape_def)

lemma same_shape_wf: "same_shape st st1 \<Longrightarrow> wf_store st \<Longrightarrow> wf_store st1"
  by (simp add: same_shape_def wf_store_iff keys_ok_def)

lemma same_shape_emit [simp]: "same_shape st (emit e st1) = same_shape st st1"
  and same_shape_hand_over [simp]: "same_shape st (hand_over k st1) = same_shape st st1"
  by (simp_all add: same_shape_def)

lemma wf_store_emit [simp]: "wf_store (emit e st) = wf_store st"
  by (simp add: wf_store_iff)

lemma wf_store_empty: "wf_store empty_state"
  by (simp add: wf_store_def empty_state_def)


lemma TChannel_shape:
  "nextChan (snd (TChannel dT st opts)) = Suc (nextChan st)"
  "serverConnections (chans (snd (TChannel dT st opts)) (nextChan st)) = None"
  "subChannels (chans (snd (TChannel dT st opts)) (nextChan st)) = None \<or>
   subChannels (chans (snd (TChannel dT st opts)) (nextChan st)) = Some []"
  by (simp_all add: TChannel_def Let_def)

lemma wf_store_TChannel:
  assumes wf: "wf_store st"
  shows "wf_store (snd (TChannel dT st opts))"
proof -
  let ?st1 = "snd (TChannel dT st opts)"
  note sh = TChannel_shape [of dT st opts]
  have old: "chans ?st1 x = chans st x" if "x < nextChan st" for x
    using that by (simp add: TChannel_other)
  show ?thesis
  proof (rule wf_storeI)
    fix c assume c: "c < nextChan ?st1"
    show "keys_ok (chans ?st1 c)"
    proof (cases "c = nextChan st")
      case True
      then show ?thesis using sh(2) by (simp add: keys_ok_def)
    next
      case False
      then have "c < nextChan st" using c sh(1) by simp
      then show ?thesis using old wf_storeD(1) [OF wf] by simp
    qed
  next
    fix c subs assume c: "c < nextChan ?st1" and sc: "subChannels (chans ?st1 c) = Some subs"
    show "distinct (map fst subs) \<and> distinct (map snd subs) \<and>
          (\<forall>b \<in> set (map snd subs). b < nextChan ?st1 \<and> subChannels (chans ?st1 b) = None)"
    proof (cases "c = nextChan st")
      case True
      then have "subs = []" using sh(3) sc by auto
      then show ?thesis by simp
    next
      case False
      then have c0: "c < nextChan st" using c sh(1) by simp
      then have "subChannels (chans st c) = Some subs" using sc old by simp
      note d = wf_storeD(2) [OF wf c0 this]
      then show ?thesis using old sh(1) by auto
    qed
  qed
qed

lemma makeSubChannel_Inl: "makeSubChannel dT st self opts = (Inl e, st1) \<Longrightarrow> st1 = st"
  by (auto simp: makeSubChannel_def Let_def case_prod_beta split: if_splits option.splits)

lemma makeSubChannel_shape:
  assumes m: "makeSubChannel dT st self opts = (Inr chan, st1)" and self: "self < nextChan st"
  shows "\<exists>subs name.
           subChannels (chans st self) = Some subs \<and> map_of subs name = None \<and>
           chan = nextChan st \<and> nextChan st1 = Suc (nextChan st) \<and>
           subChannels (chans st1 self) = Some (subs @ [(name, chan)]) \<and>
           serverConnections (chans st1 self) = serverConnections (chans st self) \<and>
           subChannels (chans st1 chan) = None \<and>
           serverConnections (chans st1 chan) = None \<and>
           (\<forall>x. x \<noteq> self \<longrightarrow> x \<noteq> chan \<longrightarrow> chans st1 x = chans st x)"
proof -
  let ?o = "case opts of None \<Rightarrow> empty_options | Some o1 \<Rightarrow> o1"
  from self have ne: "self \<noteq> nextChan st" by simp
  from m obtain subs name where
    subs: "subChannels (chans st self) = Some subs" and
    name: "oServiceName ?o = Some name" "name \<noteq> []" and
    absent: "get_prop subs name = Absent"
    by (auto simp: makeSubChannel_def Let_def split: if_splits option.splits)
  from absent have look: "map_of subs name = None"
    by (simp add: get_prop_def split: option.splits)
  from makeSubChannel_Inr [OF m] have chan: "chan = nextChan st" and
    st1: "st1 = made dT st self ?o" by simp_all
  have sn: "serviceName (chans (snd (TChannel dT st
              (Some (extend_options (options (chans st self)) (?o\<lparr>oPeers := None\<rparr>)))))
              (nextChan st)) = name"
    using name by (simp add: TChannel_def Let_def extend_options_def)
  have new: "subChannels (chans (snd (TChannel dT st
              (Some (extend_options (options (chans st self)) (?o\<lparr>oPeers := None\<rparr>)))))
              (nextChan st)) = None"
    "serverConnections (chans (snd (TChannel dT st
              (Some (extend_options (options (chans st self)) (?o\<lparr>oPeers := None\<rparr>)))))
              (nextChan st)) = None"
    "nextChan (snd (TChannel dT st
              (Some (extend_options (options (chans st self)) (?o\<lparr>oPeers := None\<rparr>))))) =
       Suc (nextChan st)"
    using name by (simp_all add: TChannel_def Let_def extend_options_def)
  show ?thesis
  proof (intro exI conjI)
    show "subChannels (chans st self) = Some subs" by (rule subs)
    show "map_of subs name = None" by (rule look)
    show "chan = nextChan st" by (rule chan)
    show "nextChan st1 = Suc (nextChan st)"
      unfolding st1 using new(3) by (simp add: made_def Let_def split: option.splits)
    show "subChannels (chans st1 self) = Some (subs @ [(name, chan)])"
      unfolding st1 chan using ne sn subs look
      by (simp add: made_def Let_def TChannel_other update_absent split: option.splits)
    show "serverConnections (chans st1 self) = serverConnections (chans st self)"
      unfolding st1 using ne
      by (simp add: made_def Let_def TChannel_other split: option.splits)
    show "subChannels (chans st1 chan) = None"
      unfolding st1 chan using ne new(1)
      by (simp add: made_def Let_def split: option.splits)
    show "serverConnections (chans st1 chan) = None"
      unfolding st1 chan using ne new(2)
      by (simp add: made_def Let_def split: option.splits)
    show "\<forall>x. x \<noteq> self \<longrightarrow> x \<noteq> chan \<longrightarrow> chans st1 x = chans st x"
      unfolding st1 chan
      by (simp add: made_def Let_def TChannel_other split: option.splits)
  qed
qed

lemma wf_store_makeSubChannel:
  assumes wf: "wf_store st" and self: "self < nextChan st"
  shows "wf_store (snd (makeSubChannel dT st self opts))"
proof (cases "fst (makeSubChannel dT st self opts)")
  case (Inl e)
  then have "makeSubChannel dT st self opts = (Inl e, snd (makeSubChannel dT st self opts))"
    by (metis prod.collapse)
  from makeSubChannel_Inl [OF this] wf show ?thesis by simp
next
  case (Inr chan)
  let ?st1 = "snd (makeSubChannel dT st self opts)"
  from Inr have m: "makeSubChannel dT st self opts = (Inr chan, ?st1)"
    by (metis prod.collapse)
  from makeSubChannel_shape [OF m self] obtain subs name where
    s: "subChannels (chans st self) = Some subs" "map_of subs name = None"
      "chan = nextChan st" "nextChan ?st1 = Suc (nextChan st)"
      "subChannels (chans ?st1 self) = Some (subs @ [(name, chan)])"
      "serverConnections (chans ?st1 self) = serverConnections (chans st self)"
      "subChannels (chans ?st1 chan) = None"
      "serverConnections (chans ?st1 chan) = None"
      "\<forall>x. x \<noteq> self \<longrightarrow> x \<noteq> chan \<longrightarrow> chans ?st1 x = chans st x"
    by blast
  note d = wf_storeD(2) [OF wf self s(1)]
  have fresh: "chan \<notin> set (map snd subs)" using d s(3) by auto
  have key: "name \<notin> set (map fst subs)" using s(2) by (simp add: map_of_eq_None_iff)
  have notsub: "self \<notin> set (map snd subs')"
    if "c < nextChan st" "subChannels (chans st c) = Some subs'" for c subs'
    using wf_storeD(2) [OF wf that] s(1) by auto
  show ?thesis
  proof (rule wf_storeI)
    fix c assume c: "c < nextChan ?st1"
    show "keys_ok (chans ?st1 c)"
    proof (cases "c = chan")
      case True
      then show ?thesis using s(8) by (simp add: keys_ok_def)
    next
      case False
      then have c0: "c < nextChan st" using c s(3,4) by simp
      show ?thesis
      proof (cases "c = self")
        case True
        then show ?thesis using s(6) wf_storeD(1) [OF wf self] by (simp add: keys_ok_def)
      next
        case False
        with \<open>c \<noteq> chan\<close> s(9) have "chans ?st1 c = chans st c" by simp
        then show ?thesis using wf_storeD(1) [OF wf c0] by simp
      qed
    qed
  next
    fix c subs' assume c: "c < nextChan ?st1" and sc: "subChannels (chans ?st1 c) = Some subs'"
    have cne: "c \<noteq> chan" using sc s(7) by auto
    then have c0: "c < nextChan st" using c s(3,4) by simp
    have after: "b < nextChan ?st1 \<and> subChannels (chans ?st1 b) = None"
      if "b < nextChan st" "subChannels (chans st b) = None" for b
    proof -
      have "b \<noteq> self" using that(2) s(1) by auto
      moreover have "b \<noteq> chan" using that(1) s(3) by simp
      ultimately have "chans ?st1 b = chans st b" using s(9) by simp
      then show ?thesis using that s(4) by simp
    qed
    show "distinct (map fst subs') \<and> distinct (map snd subs') \<and>
          (\<forall>b \<in> set (map snd subs'). b < nextChan ?st1 \<and> subChannels (chans ?st1 b) = None)"
    proof (cases "c = self")
      case True
      then have eq: "subs' = subs @ [(name, chan)]" using sc s(5) by simp
      have "\<forall>b \<in> set (map snd subs). b < nextChan ?st1 \<and> subChannels (chans ?st1 b) = None"
        using d after by blast
      moreover have "chan < nextChan ?st1 \<and> subChannels (chans ?st1 chan) = None"
        using s(3,4,7) by simp
      ultimately show ?thesis unfolding eq using d fresh key by auto
    next
      case False
      with cne s(9) have same: "chans ?st1 c = chans st c" by simp
      then have sc0: "subChannels (chans st c) = Some subs'" using sc by simp
      note d' = wf_storeD(2) [OF wf c0 sc0]
      then show ?thesis using after by blast
    qed
  qed
qed


lemma wf_store_keys:
  assumes wf: "wf_store st"
    and n: "nextChan st1 = nextChan st"
    and subs: "\<And>x. subChannels (chans st1 x) = subChannels (chans st x)"
    and keys: "\<And>x. x < nextChan st \<Longrightarrow> keys_ok (chans st x) \<Longrightarrow> keys_ok (chans st1 x)"
  shows "wf_store st1"
proof (rule wf_storeI)
  fix c assume "c < nextChan st1"
  then show "keys_ok (chans st1 c)" using n keys wf_storeD(1) [OF wf] by simp
next
  fix c sb assume "c < nextChan st1" "subChannels (chans st1 c) = Some sb"
  then have "c < nextChan st" "subChannels (chans st c) = Some sb" using n subs by simp_all
  from wf_storeD(2) [OF wf this] show "distinct (map fst sb) \<and> distinct (map snd sb) \<and>
    (\<forall>b \<in> set (map snd sb). b < nextChan st1 \<and> subChannels (chans st1 b) = None)"
    using n subs by simp
qed

lemma wf_store_listen:
  assumes wf: "wf_store st"
  shows "wf_store (snd (listen st c port hst cb))"
  using wf
proof (rule wf_store_keys)
  show "nextChan (snd (listen st c port hst cb)) = nextChan st"
    by (simp add: listen_def getServer_def Let_def split: jsval.splits option.splits)
  show "subChannels (chans (snd (listen st c port hst cb)) x) = subChannels (chans st x)" for x
    by (simp add: listen_def getServer_def Let_def split: jsval.splits option.splits)
  show "keys_ok (chans (snd (listen st c port hst cb)) x)" if "keys_ok (chans st x)" for x
    using that
    by (auto simp: listen_def getServer_def Let_def keys_ok_def
          split: jsval.splits option.splits)
qed

lemma accept_other:
  "x \<noteq> c \<Longrightarrow> chans (snd (onServerSocketConnection st c sock)) x = chans st x"
  by (simp add: onServerSocketConnection_def Let_def split: option.splits)

lemma accept_no_table:
  "serverConnections (chans st c) = None \<Longrightarrow>
   chans (snd (onServerSocketConnection st c sock)) = chans st"
  by (simp add: onServerSocketConnection_def Let_def)

lemma wf_store_accept:
  assumes wf: "wf_store st"
  shows "wf_store (snd (onServerSocketConnection st c sock))"
  using wf
proof (rule wf_store_keys)
  let ?st1 = "snd (onServerSocketConnection st c sock)"
  show "nextChan ?st1 = nextChan st"
    by (simp add: onServerSocketConnection_def Let_def split: option.splits)
  show "subChannels (chans ?st1 x) = subChannels (chans st x)" for x
    by (simp add: onServerSocketConnection_def Let_def split: option.splits)
  show "keys_ok (chans ?st1 x)" if k: "keys_ok (chans st x)" for x
  proof (cases "x = c \<and> \<not> destroyed (chans st c) \<and> serverConnections (chans st c) \<noteq> None")
    case False
    then have "chans ?st1 x = chans st x"
      using accept_other [of x c st sock] accept_no_table [of st c sock]
        accept_destroyed [of st c sock] by auto
    then show ?thesis using k by simp
  next
    case True
    then obtain tbl where t: "serverConnections (chans st c) = Some tbl" by auto
    from True have live: "\<not> destroyed (chans st c)" and x: "x = c" by simp_all
    from k x t have "distinct (map fst tbl)" by (simp add: keys_ok_def)
    then have "distinct (map fst
        (AList.delete (remoteAddress sock @ '':'' @ string_of_nat (remotePort sock)) tbl @
         [(remoteAddress sock @ '':'' @ string_of_nat (remotePort sock), nextConn st)]))"
      by (rule distinct_reinsert)
    with accept_table [OF live t refl, of sock] x show ?thesis
      by (simp only: keys_ok_def option.case)
  qed
qed

lemma wf_store_onSocketClose:
  assumes wf: "wf_store st"
  shows "wf_store (snd (onSocketClose st c a))"
  using wf
proof (rule wf_store_keys)
  let ?st1 = "snd (onSocketClose st c a)"
  show "nextChan ?st1 = nextChan st" by (simp add: onSocketClose_def split: option.splits)
  show "subChannels (chans ?st1 x) = subChannels (chans st x)" for x
    by (simp add: onSocketClose_def split: option.splits)
  show "keys_ok (chans ?st1 x)" if "keys_ok (chans st x)" for x
    using that by (auto simp: onSocketClose_def keys_ok_def distinct_delete split: option.splits)
qed

lemma wf_store_run_handler: "wf_store s \<Longrightarrow> wf_store (run_handler sid e s)"
  by (simp add: run_handler_def wf_store_onSocketClose split: effect.splits)

lemma wf_store_fold_run_handler: "wf_store s \<Longrightarrow> wf_store (fold (run_handler sid) es s)"
  by (induction es arbitrary: s) (simp_all add: wf_store_run_handler)

lemma wf_store_socket_closes: "wf_store st \<Longrightarrow> wf_store (socket_closes sid st)"
  by (simp add: socket_closes_def wf_store_fold_run_handler)


lemma shape_propagate:
  "subChannels (chans (propagate c subs name st) x) = subChannels (chans st x)"
  "serverConnections (chans (propagate c subs name st) x) = serverConnections (chans st x)"
  "nextChan (propagate c subs name st) = nextChan st"
  by (simp_all add: propagate_def split: option.splits)

lemma shape_fold_propagate:
  "subChannels (chans (fold (propagate c subs) names st) x) = subChannels (chans st x)"
  "serverConnections (chans (fold (propagate c subs) names st) x) =
     serverConnections (chans st x)"
  "nextChan (fold (propagate c subs) names st) = nextChan st"
  by (induction names arbitrary: st) (simp_all add: shape_propagate)

lemma same_shape_listening: "same_shape st (snd (onServerSocketListening st c))"
  by (simp add: same_shape_def onServerSocketListening_def Let_def shape_fold_propagate
        split: option.splits)

lemma same_shape_register: "same_shape st (snd (register st c name fn))"
  by (simp add: same_shape_def register_def Let_def)

lemma same_shape_request: "request n st c opts = Some (r, st1) \<Longrightarrow> same_shape st st1"
proof (induction n arbitrary: st c opts r st1)
  case 0
  then show ?case by simp
next
  case (Suc n)
  then show ?case
    by (auto simp: Let_def same_shape_def split: if_splits slot.splits)
qed

lemma nextChan_incr [simp]: "nextChan (incr c st) = nextChan st"
  and nextChan_beginClose [simp]: "nextChan (beginClose c st) = nextChan st"
  and nextChan_closeServerSocket [simp]: "nextChan (closeServerSocket c k st) = nextChan st"
  and nextChan_closePeers [simp]: "nextChan (closePeers c k st) = nextChan st"
  and chans_closeServerSocket [simp]: "chans (closeServerSocket c k st) = chans st"
  by (simp_all add: incr_def beginClose_def closeServerSocket_def closePeers_def Let_def)

lemma nextChan_closeServer [simp]: "nextChan (closeServer c k st) = nextChan st"
  by (simp add: closeServer_def Let_def split: option.splits)

lemma nextChan_closeConn [simp]: "nextChan (closeConn c k key st) = nextChan st"
  by (simp add: closeConn_def Let_def split: option.splits)

lemma nextChan_fold_closeConn [simp]: "nextChan (fold (closeConn c k) keys st) = nextChan st"
  by (induction keys arbitrary: st) simp_all

lemma nextChan_closeConns [simp]: "nextChan (closeConns c k st) = nextChan st"
  by (simp add: closeConns_def split: option.splits)

lemma same_shape_step: "same_shape st st1 \<Longrightarrow> nextChan st2 = nextChan st1 \<Longrightarrow>
   (\<And>x. subChannels (chans st2 x) = subChannels (chans st1 x)) \<Longrightarrow>
   (\<And>x. serverConnections (chans st2 x) = serverConnections (chans st1 x)) \<Longrightarrow>
   same_shape st st2"
  by (simp add: same_shape_def)

lemma same_shape_fold_opt:
  assumes "\<And>x s s1. f x s = Some s1 \<Longrightarrow> same_shape s s1"
  shows "fold_opt f xs s = Some s1 \<Longrightarrow> same_shape s s1"
proof (induction xs arbitrary: s)
  case Nil
  then show ?case by simp
next
  case (Cons x xs)
  then obtain s2 where "f x s = Some s2" "fold_opt f xs s2 = Some s1"
    by (auto split: option.splits)
  then show ?case using assms Cons.IH same_shape_trans by blast
qed

lemma same_shape_close: "close n st c k = Some (r, st1) \<Longrightarrow> same_shape st st1"
proof (induction n arbitrary: st c k r st1)
  case 0
  then show ?case by simp
next
  case (Suc n)
  show ?case
  proof (cases "destroyed (chans st c)")
    case True
    with Suc.prems show ?thesis by simp
  next
    case False
    let ?st4 = "closeConns c k (closeServer c k (beginClose c st))"
    have s4: "same_shape st ?st4" by (simp add: same_shape_def)
    have sub: "same_shape s s1" if "closeSub (close n) c k subs name s = Some s1"
      for subs name s s1
    proof (cases "map_of subs name")
      case None
      with that show ?thesis by (simp add: closeSub_def)
    next
      case (Some b)
      show ?thesis
      proof (cases "destroyed (chans s b)")
        case True
        with that Some show ?thesis by (simp add: closeSub_def)
      next
        case False
        with that Some obtain r1 where "close n (incr c s) b (OnClose c k) = Some (r1, s1)"
          by (auto simp: closeSub_def)
        from Suc.IH [OF this] show ?thesis by (simp add: same_shape_def)
      qed
    qed
    from Suc.prems False obtain st5 where
      st5: "(case subChannels (chans ?st4 c) of
               None \<Rightarrow> Some ?st4
             | Some subs \<Rightarrow> fold_opt (closeSub (close n) c k subs) (map fst subs) ?st4) = Some st5"
      and st1: "st1 = closePeers c k st5"
      by (auto simp: Let_def split: option.splits)
    have "same_shape ?st4 st5"
    proof (cases "subChannels (chans ?st4 c)")
      case None
      with st5 show ?thesis by simp
    next
      case (Some subs)
      with st5 have "fold_opt (closeSub (close n) c k subs) (map fst subs) ?st4 = Some st5"
        by simp
      then show ?thesis using sub by (rule same_shape_fold_opt [rotated])
    qed
    with s4 have "same_shape st st5" by (rule same_shape_trans)
    then show ?thesis unfolding st1 by (simp add: same_shape_def)
  qed
qed

lemma chans_call [simp]: "chans (call x st) = chans st"
  and nextChan_call [simp]: "nextChan (call x st) = nextChan st"
  by (induction x st rule: call.induct) (simp_all add: Let_def)

lemma same_shape_fire: "fire i st = Some st1 \<Longrightarrow> same_shape st st1"
  by (auto simp: fire_def same_shape_def split: if_splits)

lemma same_shape_run: "run sched st = Some st1 \<Longrightarrow> same_shape st st1"
proof (induction sched arbitrary: st)
  case Nil
  then show ?case by simp
next
  case (Cons i sched)
  then obtain s where "fire i st = Some s" "run sched s = Some st1"
    by (auto split: option.splits)
  then show ?case using same_shape_fire Cons.IH same_shape_trans by blast
qed

lemma grownI:
  assumes "nextChan st1 = nextChan st"
    and "\<And>a. destroyed (chans st a) \<Longrightarrow> destroyed (chans st1 a)"
    and "pending st1 = pending st @ ys"
    and "\<And>y a. y \<in> set ys \<Longrightarrow> a \<in> set (chain y) \<Longrightarrow>
           a \<in> set (chain k) \<or> destroyed (chans st1 a) \<and> a < nextChan st"
  shows "grown k st st1"
  unfolding grown_def using assms by blast

lemma grown_refl [simp]: "grown k st st"
  by (simp add: grown_def)

lemma grown_trans:
  assumes "grown k a b" "grown k b c"
  shows "grown k a c"
proof -
  from assms(1) obtain ys where 1: "nextChan b = nextChan a"
    "\<forall>x. destroyed (chans a x) \<longrightarrow> destroyed (chans b x)"
    "pending b = pending a @ ys"
    "\<forall>y \<in> set ys. \<forall>x \<in> set (chain y).
       x \<in> set (chain k) \<or> destroyed (chans b x) \<and> x < nextChan a"
    unfolding grown_def by blast
  from assms(2) obtain zs where 2: "nextChan c = nextChan b"
    "\<forall>x. destroyed (chans b x) \<longrightarrow> destroyed (chans c x)"
    "pending c = pending b @ zs"
    "\<forall>y \<in> set zs. \<forall>x \<in> set (chain y).
       x \<in> set (chain k) \<or> destroyed (chans c x) \<and> x < nextChan b"
    unfolding grown_def by blast
  show ?thesis
  proof (rule grownI [where ys = "ys @ zs"])
    fix y x assume "y \<in> set (ys @ zs)" "x \<in> set (chain y)"
    then show "x \<in> set (chain k) \<or> destroyed (chans c x) \<and> x < nextChan a"
      using 1(1,4) 2(2,4) by auto
  qed (use 1 2 in simp_all)
qed

lemma grown_weaken:
  assumes g: "grown (OnClose c k) st st1" and d: "destroyed (chans st c)" "c < nextChan st"
  shows "grown k st st1"
proof -
  from g obtain ys where 1: "nextChan st1 = nextChan st"
    "\<forall>x. destroyed (chans st x) \<longrightarrow> destroyed (chans st1 x)"
    "pending st1 = pending st @ ys"
    "\<forall>y \<in> set ys. \<forall>x \<in> set (chain y).
       x \<in> set (chain (OnClose c k)) \<or> destroyed (chans st1 x) \<and> x < nextChan st"
    unfolding grown_def by blast
  show ?thesis
  proof (rule grownI [where ys = ys])
    fix y a assume "y \<in> set ys" "a \<in> set (chain y)"
    with 1(4) have "a \<in> set (chain (OnClose c k)) \<or> destroyed (chans st1 a) \<and> a < nextChan st"
      by blast
    then show "a \<in> set (chain k) \<or> destroyed (chans st1 a) \<and> a < nextChan st"
      using d 1(2) by auto
  qed (use 1 in simp_all)
qed

lemma grown_beginClose: "grown k st (beginClose c st)"
  by (rule grownI [where ys = "[]"]) simp_all

lemma grown_incr: "grown k st (incr c st)"
  by (rule grownI [where ys = "[]"]) simp_all

lemma grown_closeServer:
  assumes "destroyed (chans st c)" "c < nextChan st"
  shows "grown k st (closeServer c k st)"
proof (rule grownI [where ys = "serverPending c k (chans st c)"])
  show "pending (closeServer c k st) = pending st @ serverPending c k (chans st c)"
    by (rule pending_closeServer)
  fix y a assume "y \<in> set (serverPending c k (chans st c))" "a \<in> set (chain y)"
  then show "a \<in> set (chain k) \<or>
      destroyed (chans (closeServer c k st) a) \<and> a < nextChan st"
    using assms by (auto simp: serverPending_def split: option.splits if_splits)
qed simp_all

lemma pending_fold_closeConn:
  "\<exists>n. pending (fold (closeConn c k) keys st) = pending st @ replicate n (OnClose c k)"
proof (induction keys arbitrary: st)
  case Nil
  show ?case by (rule exI [of _ 0]) simp
next
  case (Cons key keys)
  have "pending (closeConn c k key st) = pending st \<or>
        pending (closeConn c k key st) = pending st @ [OnClose c k]"
    by (simp add: closeConn_def Let_def split: option.splits)
  moreover from Cons.IH [of "closeConn c k key st"] obtain n where
    "pending (fold (closeConn c k) keys (closeConn c k key st)) =
       pending (closeConn c k key st) @ replicate n (OnClose c k)" by blast
  ultimately have "pending (fold (closeConn c k) (key # keys) st) =
        pending st @ replicate n (OnClose c k) \<or>
      pending (fold (closeConn c k) (key # keys) st) =
        pending st @ replicate (Suc n) (OnClose c k)"
    by (auto simp: replicate_app_Cons_same)
  then show ?case by blast
qed

lemma grown_closeConns:
  assumes "destroyed (chans st c)" "c < nextChan st"
  shows "grown k st (closeConns c k st)"
proof -
  obtain n where n: "pending (closeConns c k st) = pending st @ replicate n (OnClose c k)"
    using pending_fold_closeConn [of c k _ st]
    by (cases "serverConnections (chans st c)") (auto simp: closeConns_def intro: exI [of _ 0])
  show ?thesis
  proof (rule grownI [where ys = "replicate n (OnClose c k)"])
    fix y a assume "y \<in> set (replicate n (OnClose c k))" "a \<in> set (chain y)"
    then show "a \<in> set (chain k) \<or>
        destroyed (chans (closeConns c k st) a) \<and> a < nextChan st"
      using assms by auto
  qed (use n in simp_all)
qed

lemma grown_closePeers:
  assumes "destroyed (chans st c)" "c < nextChan st"
  shows "grown k st (closePeers c k st)"
proof (rule grownI [where ys = "[OnClose c k]"])
  fix y a assume "y \<in> set [OnClose c k]" "a \<in> set (chain y)"
  then show "a \<in> set (chain k) \<or>
      destroyed (chans (closePeers c k st) a) \<and> a < nextChan st"
    using assms by auto
qed simp_all


lemma same_shape_incr [simp]: "same_shape st (incr c st)"
  by (simp add: same_shape_def)

lemma close_grown:
  "close n st c k = Some (r, st1) \<Longrightarrow> wf_store st \<Longrightarrow> c < nextChan st \<Longrightarrow> grown k st st1"
proof (induction n arbitrary: st c k r st1)
  case 0
  then show ?case by simp
next
  case (Suc n)
  note wf = Suc.prems(2) and c = Suc.prems(3)
  show ?case
  proof (cases "destroyed (chans st c)")
    case True
    with Suc.prems(1) show ?thesis by simp
  next
    case False
    let ?st2 = "beginClose c st"
    let ?st3 = "closeServer c k ?st2"
    let ?st4 = "closeConns c k ?st3"
    have d2: "destroyed (chans ?st2 c)" "c < nextChan ?st2" using c by simp_all
    have d3: "destroyed (chans ?st3 c)" "c < nextChan ?st3" using c by simp_all
    have d4: "destroyed (chans ?st4 c)" "c < nextChan ?st4" using c by simp_all
    have g4: "grown k st ?st4"
      using grown_beginClose [of k st c] grown_closeServer [OF d2, of k]
        grown_closeConns [OF d3, of k] grown_trans by blast
    have sh4: "same_shape st ?st4" by (simp add: same_shape_def)
    from Suc.prems(1) False obtain st5 where
      st5: "(case subChannels (chans ?st4 c) of
               None \<Rightarrow> Some ?st4
             | Some subs \<Rightarrow> fold_opt (closeSub (close n) c k subs) (map fst subs) ?st4) = Some st5"
      and st1: "st1 = closePeers c k st5"
      by (auto simp: Let_def split: option.splits)
    have g5: "grown k ?st4 st5"
    proof (cases "subChannels (chans ?st4 c)")
      case None
      with st5 show ?thesis by simp
    next
      case (Some subs)
      with st5 have f: "fold_opt (closeSub (close n) c k subs) (map fst subs) ?st4 = Some st5"
        by simp
      from Some have sc: "subChannels (chans st c) = Some subs" by simp
      have inside: "\<forall>b \<in> set (map snd subs). b < nextChan st"
        using wf_storeD(2) [OF wf c sc] by blast
      have step: "grown k s s1 \<and> same_shape s s1"
        if "closeSub (close n) c k subs name s = Some s1" "same_shape st s"
          "destroyed (chans s c)" for name s s1
      proof (cases "map_of subs name")
        case None
        with that show ?thesis by (simp add: closeSub_def)
      next
        case (Some b)
        then have "b \<in> set (map snd subs)" by (metis map_of_SomeD set_zip_rightD zip_map_fst_snd)
        with inside have b: "b < nextChan st" by blast
        show ?thesis
        proof (cases "destroyed (chans s b)")
          case True
          with that Some show ?thesis by (simp add: closeSub_def)
        next
          case False
          with that Some obtain r1 where
            cl: "close n (incr c s) b (OnClose c k) = Some (r1, s1)"
            by (auto simp: closeSub_def)
          have n: "nextChan s = nextChan st" using that(2) by (simp add: same_shape_def)
          have wfs: "wf_store (incr c s)"
            using that(2) wf same_shape_wf same_shape_incr same_shape_trans by blast
          have "grown (OnClose c k) (incr c s) s1"
            using cl wfs b n by (intro Suc.IH) simp_all
          moreover have "destroyed (chans (incr c s) c)" "c < nextChan (incr c s)"
            using that(3) c n by simp_all
          ultimately have "grown k (incr c s) s1" by (rule grown_weaken)
          with grown_incr [of k s c] have "grown k s s1" by (rule grown_trans)
          moreover have "same_shape s s1"
            using same_shape_close [OF cl] by (simp add: same_shape_def)
          ultimately show ?thesis by simp
        qed
      qed
      have fold: "grown k s s1"
        if "fold_opt (closeSub (close n) c k subs) names s = Some s1" "same_shape st s"
          "destroyed (chans s c)" for names s s1
        using that
      proof (induction names arbitrary: s)
        case Nil
        then show ?case by simp
      next
        case (Cons name names)
        from Cons.prems(1) obtain s2 where
          s2: "closeSub (close n) c k subs name s = Some s2"
          "fold_opt (closeSub (close n) c k subs) names s2 = Some s1"
          by (auto split: option.splits)
        from step [OF s2(1) Cons.prems(2,3)] have a: "grown k s s2" "same_shape s s2" by simp_all
        have "same_shape st s2" using Cons.prems(2) a(2) by (rule same_shape_trans)
        moreover have "destroyed (chans s2 c)" using a(1) Cons.prems(3) by (simp add: grown_def)
        ultimately have "grown k s2 s1" using s2(2) by (intro Cons.IH)
        with a(1) show ?case by (rule grown_trans)
      qed
      from fold [OF f sh4 d4(1)] show ?thesis .
    qed
    have d5: "destroyed (chans st5 c)" "c < nextChan st5"
      using g5 d4 by (simp_all add: grown_def)
    from grown_closePeers [OF d5, of k] have "grown k st5 st1" unfolding st1 .
    with g4 g5 show ?thesis using grown_trans by blast
  qed
qed

lemma pend_ok_grown:
  assumes "pend_ok st" "grown k st st1" "\<forall>a \<in> set (chain k). destroyed (chans st a) \<and> a < nextChan st"
  shows "pend_ok st1"
proof -
  from assms(2) obtain ys where 1: "nextChan st1 = nextChan st"
    "\<forall>x. destroyed (chans st x) \<longrightarrow> destroyed (chans st1 x)"
    "pending st1 = pending st @ ys"
    "\<forall>y \<in> set ys. \<forall>x \<in> set (chain y).
       x \<in> set (chain k) \<or> destroyed (chans st1 x) \<and> x < nextChan st"
    unfolding grown_def by blast
  show ?thesis
    unfolding pend_ok_def
  proof (intro ballI)
    fix x a assume x: "x \<in> set (pending st1)" and a: "a \<in> set (chain x)"
    show "destroyed (chans st1 a) \<and> a < nextChan st1"
    proof (cases "x \<in> set (pending st)")
      case True
      with assms(1) a have "destroyed (chans st a) \<and> a < nextChan st"
        unfolding pend_ok_def by blast
      then show ?thesis using 1(1,2) by simp
    next
      case False
      with x 1(3) have "x \<in> set ys" by simp
      with 1(4) a have "a \<in> set (chain k) \<or> destroyed (chans st1 a) \<and> a < nextChan st"
        by blast
      then show ?thesis using assms(3) 1(1,2) by auto
    qed
  qed
qed

lemma pend_ok_close:
  assumes "close n st c k = Some (r, st1)" "wf_store st" "c < nextChan st" "pend_ok st"
    "chain k = []"
  shows "pend_ok st1"
  using assms(4) close_grown [OF assms(1-3)] by (rule pend_ok_grown) (simp add: assms(5))

lemma pend_ok_fire:
  assumes "fire i st = Some st1" "pend_ok st"
  shows "pend_ok st1"
proof -
  from assms(1) have i: "i < length (pending st)"
    and st1: "st1 = call (pending st ! i)
                      (st\<lparr>pending := take i (pending st) @ drop (Suc i) (pending st)\<rparr>)"
    by (auto simp: fire_def split: if_splits)
  let ?x = "pending st ! i"
  let ?s = "st\<lparr>pending := take i (pending st) @ drop (Suc i) (pending st)\<rparr>"
  from call_frame [of ?x ?s] obtain ys where
    ys: "pending (call ?x ?s) = pending ?s @ ys"
    "\<forall>y \<in> set ys. set (chain y) \<subseteq> set (chain ?x) \<and> user_fn y = user_fn ?x"
    by blast
  have x: "?x \<in> set (pending st)" using i by simp
  show ?thesis
    unfolding pend_ok_def
  proof (intro ballI)
    fix y a assume y: "y \<in> set (pending st1)" and a: "a \<in> set (chain y)"
    from y ys(1) st1 have "y \<in> set (take i (pending st) @ drop (Suc i) (pending st)) \<or> y \<in> set ys"
      by auto
    then have "\<exists>z \<in> set (pending st). a \<in> set (chain z)"
    proof (elim disjE)
      assume "y \<in> set (take i (pending st) @ drop (Suc i) (pending st))"
      then have "y \<in> set (pending st)" using set_remove [of i "pending st"] by (rule subsetD [rotated])
      with a show ?thesis by (rule bexI)
    next
      assume "y \<in> set ys"
      with ys(2) a have "a \<in> set (chain ?x)" by (meson subsetD)
      then show ?thesis using x by (rule bexI)
    qed
    with assms(2) have "destroyed (chans st a) \<and> a < nextChan st"
      unfolding pend_ok_def by blast
    then show "destroyed (chans st1 a) \<and> a < nextChan st1" unfolding st1 by simp
  qed
qed

lemma pend_ok_run: "run sched st = Some st1 \<Longrightarrow> pend_ok st \<Longrightarrow> pend_ok st1"
proof (induction sched arbitrary: st)
  case Nil
  then show ?case by simp
next
  case (Cons i sched)
  then obtain s where "fire i st = Some s" "run sched s = Some st1"
    by (auto split: option.splits)
  then show ?case using pend_ok_fire Cons.IH Cons.prems(2) by blast
qed

lemma pend_ok_keep:
  assumes "pend_ok st" "pending st1 = pending st" "nextChan st \<le> nextChan st1"
    and "\<And>a. a < nextChan st \<Longrightarrow> destroyed (chans st a) \<Longrightarrow> destroyed (chans st1 a)"
  shows "pend_ok st1"
  using assms unfolding pend_ok_def by (metis less_le_trans)

lemma pending_addOnePeer [simp]: "pending (addOnePeer self chan p st) = pending st"
  by (simp add: addOnePeer_def split: peerspec.splits)

lemma pending_fold_addOnePeer [simp]:
  "pending (fold (addOnePeer self chan) ps st) = pending st"
  by (induction ps arbitrary: st) simp_all

lemma pend_ok_TChannel: "pend_ok st \<Longrightarrow> pend_ok (snd (TChannel dT st opts))"
proof (erule pend_ok_keep)
  show "pending (snd (TChannel dT st opts)) = pending st" by (simp add: TChannel_def Let_def)
  show "nextChan st \<le> nextChan (snd (TChannel dT st opts))" by (simp add: TChannel_shape)
  show "destroyed (chans (snd (TChannel dT st opts)) a)"
    if "a < nextChan st" "destroyed (chans st a)" for a
    using that by (simp add: TChannel_other)
qed

lemma made_life:
  "pending (made dT st self o1) = pending st"
  "nextChan (made dT st self o1) = Suc (nextChan st)"
  "self \<noteq> nextChan st \<Longrightarrow> x \<noteq> nextChan st \<Longrightarrow>
   destroyed (chans (made dT st self o1) x) = destroyed (chans st x)"
  by (simp_all add: made_def Let_def TChannel_def split: option.splits)

lemma pend_ok_makeSubChannel:
  assumes p: "pend_ok st" and self: "self < nextChan st"
  shows "pend_ok (snd (makeSubChannel dT st self opts))"
proof (cases "fst (makeSubChannel dT st self opts)")
  case (Inl e)
  then have "makeSubChannel dT st self opts = (Inl e, snd (makeSubChannel dT st self opts))"
    by (metis prod.collapse)
  from makeSubChannel_Inl [OF this] p show ?thesis by simp
next
  case (Inr chan)
  then have "makeSubChannel dT st self opts = (Inr chan, snd (makeSubChannel dT st self opts))"
    by (metis prod.collapse)
  from makeSubChannel_Inr [OF this] obtain o1 where
    eq: "snd (makeSubChannel dT st self opts) = made dT st self o1" by blast
  from self have ne: "self \<noteq> nextChan st" by simp
  show ?thesis
    unfolding eq using p
  proof (rule pend_ok_keep)
    show "destroyed (chans (made dT st self o1) a)"
      if "a < nextChan st" "destroyed (chans st a)" for a
      using that made_life(3) [OF ne, of a dT o1] by simp
  qed (simp_all add: made_life)
qed

lemma pend_ok_listen: "pend_ok st \<Longrightarrow> pend_ok (snd (listen st c port hst cb))"
  by (erule pend_ok_keep)
     (auto simp: listen_def getServer_def Let_def split: jsval.splits option.splits)

lemma pend_ok_bound: "pend_ok st \<Longrightarrow> pend_ok (upd_chan c (\<lambda>ch. ch\<lparr>serverSocket := s\<rparr>) st)"
  by (erule pend_ok_keep) auto

lemma pend_ok_accept: "pend_ok st \<Longrightarrow> pend_ok (snd (onServerSocketConnection st c sock))"
  by (erule pend_ok_keep)
     (auto simp: onServerSocketConnection_def Let_def split: option.splits)

lemma pend_ok_onSocketClose: "pend_ok st \<Longrightarrow> pend_ok (snd (onSocketClose st c a))"
  by (erule pend_ok_keep) (auto simp: onSocketClose_def split: option.splits)

lemma pend_ok_run_handler: "pend_ok s \<Longrightarrow> pend_ok (run_handler sid e s)"
  by (simp add: run_handler_def pend_ok_onSocketClose split: effect.splits)

lemma pend_ok_emit [simp]: "pend_ok (emit e st) = pend_ok st"
  by (simp add: pend_ok_def)

lemma pend_ok_fold_run_handler: "pend_ok s \<Longrightarrow> pend_ok (fold (run_handler sid) es s)"
  by (induction es arbitrary: s) (simp_all add: pend_ok_run_handler)

lemma pend_ok_socket_closes: "pend_ok st \<Longrightarrow> pend_ok (socket_closes sid st)"
  by (simp add: socket_closes_def pend_ok_fold_run_handler)

lemma life_propagate:
  "destroyed (chans (propagate c subs name st) x) = destroyed (chans st x)"
  "pending (propagate c subs name st) = pending st"
  by (simp_all add: propagate_def split: option.splits)

lemma life_fold_propagate:
  "destroyed (chans (fold (propagate c subs) names st) x) = destroyed (chans st x)"
  "pending (fold (propagate c subs) names st) = pending st"
  by (induction names arbitrary: st) (simp_all add: life_propagate)

lemma pend_ok_listening: "pend_ok st \<Longrightarrow> pend_ok (snd (onServerSocketListening st c))"
  by (erule pend_ok_keep)
     (auto simp: onServerSocketListening_def Let_def life_fold_propagate shape_fold_propagate
        split: option.splits)

lemma pend_ok_register: "pend_ok st \<Longrightarrow> pend_ok (snd (register st c name fn))"
  by (simp add: register_def Let_def)

lemma pend_ok_request: "request n st c opts = Some (r, st1) \<Longrightarrow> pend_ok st \<Longrightarrow> pend_ok st1"
proof (induction n arbitrary: st c opts r st1)
  case 0
  then show ?case by simp
next
  case (Suc n)
  then show ?case
    by (auto simp: Let_def split: if_splits slot.splits)
qed

lemma wf_store_bound:
  "wf_store st \<Longrightarrow> wf_store (upd_chan c (\<lambda>ch. ch\<lparr>serverSocket := s\<rparr>) st)"
  by (erule same_shape_wf [rotated]) (simp add: same_shape_def)

lemma reachable_well_formed: "reachable st \<Longrightarrow> wf_store st \<and> pend_ok st"
proof (induction rule: reachable.induct)
  case start
  show ?case using wf_store_empty by (simp add: pend_ok_def empty_state_def)
next
  case (construct st dT opts)
  then show ?case by (simp add: wf_store_TChannel pend_ok_TChannel)
next
  case (sub_channel st self dT opts)
  then show ?case by (simp add: wf_store_makeSubChannel pend_ok_makeSubChannel)
next
  case (listen st c port hst cb)
  then show ?case by (simp add: wf_store_listen pend_ok_listen)
next
  case (bound st c srv port)
  then show ?case by (simp add: wf_store_bound pend_ok_bound)
next
  case (listening st c)
  then show ?case using same_shape_wf [OF same_shape_listening] by (simp add: pend_ok_listening)
next
  case (accept st c sock)
  then show ?case by (simp add: wf_store_accept pend_ok_accept)
next
  case (socket_closed st sid)
  then show ?case by (simp add: wf_store_socket_closes pend_ok_socket_closes)
next
  case (register st c name fn)
  then show ?case using same_shape_wf [OF same_shape_register] by (simp add: pend_ok_register)
next
  case (request st c n opts r st1)
  then show ?case using same_shape_wf [OF same_shape_request] pend_ok_request by blast
next
  case (close st c k n r1 st1)
  then show ?case using same_shape_wf [OF same_shape_close] pend_ok_close by blast
next
  case (completion st i st1)
  then show ?case using same_shape_wf [OF same_shape_fire] pend_ok_fire by blast
qed

section \<open>Every close can complete\<close>

lemma load_append [simp]: "load (xs @ ys) = load xs + load ys"
  and load_Nil [simp]: "load [] = 0"
  and load_Cons [simp]: "load (x # xs) = Suc (weight x) + load xs"
  by (simp_all add: load_def)

lemma call_weight:
  "\<exists>ys. pending (call x st) = pending st @ ys \<and> load ys \<le> weight x"
proof (induction x st rule: call.induct)
  case (1 st)
  show ?case by (rule exI [of _ "[]"]) simp
next
  case (2 g st)
  show ?case by (rule exI [of _ "[]"]) simp
next
  case (3 c k st)
  show ?case by (rule exI [of _ "[OnClose c k]"]) (simp add: closeServerSocket_def)
next
  case (4 c k st)
  let ?n = "counters st c - 1"
  let ?st1 = "st\<lparr>counters := (counters st)(c := ?n)\<rparr>"
  let ?st2 = "if ?n < 0 then emit (LogError ''closed more channel sockets than expected'') ?st1
              else ?st1"
  show ?case
  proof (cases "?n \<le> 0 \<and> is_function k")
    case False
    then have "pending (call (OnClose c k) st) = pending st" by (auto simp: Let_def)
    then show ?thesis by (intro exI [of _ "[]"]) simp
  next
    case True
    then have eq: "call (OnClose c k) st = call k ?st2" by (simp add: Let_def)
    have "\<exists>ys. pending (call k ?st2) = pending ?st2 @ ys \<and> load ys \<le> weight k"
      using True by (intro "4.IH" [of ?n ?st1 ?st2]) auto
    then obtain ys where "pending (call k ?st2) = pending ?st2 @ ys" "load ys \<le> weight k"
      by blast
    moreover have "pending ?st2 = pending st" by simp
    ultimately have "pending (call (OnClose c k) st) = pending st @ ys \<and>
        load ys \<le> weight (OnClose c k)"
      using eq by simp
    then show ?thesis by blast
  qed
qed

lemma fire_load:
  assumes "pending st \<noteq> []"
  shows "\<exists>st1. fire 0 st = Some st1 \<and> load (pending st1) < load (pending st)"
proof -
  from assms obtain x xs where p: "pending st = x # xs" by (cases "pending st") auto
  let ?s = "st\<lparr>pending := xs\<rparr>"
  from call_weight [of x ?s] obtain ys where
    ys: "pending (call x ?s) = xs @ ys" "load ys \<le> weight x" by auto
  have "fire 0 st = Some (call x ?s)" using p by (simp add: fire_def)
  moreover have "load (pending (call x ?s)) < load (pending st)" using ys p by simp
  ultimately show ?thesis by blast
qed

lemma run_completes: "\<exists>sched st1. run sched st = Some st1 \<and> pending st1 = []"
proof (induction "load (pending st)" arbitrary: st rule: less_induct)
  case less
  show ?case
  proof (cases "pending st = []")
    case True
    then have "run [] st = Some st \<and> pending st = []" by simp
    then show ?thesis by blast
  next
    case False
    from fire_load [OF this] obtain s where
      s: "fire 0 st = Some s" "load (pending s) < load (pending st)" by blast
    from less [OF s(2)] obtain sched st1 where "run sched s = Some st1" "pending st1 = []"
      by blast
    with s(1) have "run (0 # sched) st = Some st1 \<and> pending st1 = []" by simp
    then show ?thesis by blast
  qed
qed

lemma reachable_hypotheses:
  assumes "reachable st" "c < nextChan st"
  shows "wf_hier st c"
    and "\<forall>x \<in> set (pending st). \<forall>a \<in> set (chain x). destroyed (chans st a)"
  using reachable_well_formed [OF assms(1)] assms(2) wf_store_hier
  by (auto simp: pend_ok_def)

lemma reachable_examples:
  shows "reachable ex_conn2" and "reachable ex_two_closing"
proof -
  have 1: "reachable ex_top"
    unfolding ex_top_def by (rule reachable.construct [OF reachable.start])
  have 2: "reachable ex_sub"
    unfolding ex_sub_def by (rule reachable.sub_channel [OF 1]) (simp add: ex_top_facts)
  have 3: "reachable ex_listened"
    unfolding ex_listened_def by (rule reachable.listen [OF 2]) (simp add: ex_sub_facts)
  have 4: "reachable ex_bound"
    unfolding ex_bound_def
    by (rule reachable.bound [OF 3, where srv = "\<lparr>address = None\<rparr>"])
       (simp_all add: ex_listened_facts)
  have 5: "reachable ex_listening"
    unfolding ex_listening_def by (rule reachable.listening [OF 4]) (simp add: ex_bound_facts)
  have 6: "reachable ex_conn1"
    unfolding ex_conn1_def by (rule reachable.accept [OF 5]) (simp add: ex_listening_facts)
  show 7: "reachable ex_conn2"
    unfolding ex_conn2_def by (rule reachable.accept [OF 6]) (simp add: ex_conn1_facts)
  have 8: "reachable ex_two"
    unfolding ex_two_def by (rule reachable.sub_channel [OF 7]) (simp add: ex_conn2_facts)
  have n: "nextChan ex_two = 3"
    by (simp add: ex_two_def ex_late_options_def op_defs ex_facts)
  have c: "close 1 ex_two 2 (UserFn 5) = Some (Inr (), ex_two_closing)"
    by (simp add: ex_two_closing_def ex_two_facts Let_def)
  show "reachable ex_two_closing"
    by (rule reachable.close [OF 8 _ _ c]) (simp_all add: n)
qed

section \<open>The claims\<close>

text \<open>
  \<^bold>\<open>C7.\<close> On a channel whose \<^verbatim>\<open>destroyed\<close> flag is set, \<^verbatim>\<open>request(options)\<close> fails at
  once, for every value of the options and with any fuel: the first statement is the
  assertion, whose error (the spec's use-after-close error) is thrown before the
  options are read. The store that comes back is the store that went in, so no request
  object was constructed, no event emitted and no field changed.
\<close>

theorem request_on_destroyed_channel:
  "destroyed (chans st c) \<Longrightarrow>
   request (Suc n) st c options0 =
     Some (Inl (AssertionError ''cannot request() to destroyed tchannel''), st)"
  by simp

theorem request_on_destroyed_channel_witness:
  "destroyed (chans ex_top_closed 0) \<and>
   request 1 ex_top_closed 0 (Some (empty_reqopts\<lparr>rHost := Some ''10.0.0.9:4040''\<rparr>)) =
     Some (Inl (AssertionError ''cannot request() to destroyed tchannel''), ex_top_closed)"
proof -
  have d: "destroyed (chans ex_top_closed 0)" by (simp add: ex_top_closed_facts)
  from request_on_destroyed_channel [OF d, of 0] d show ?thesis by simp
qed

text \<open>
  \<^bold>\<open>C8.\<close> \<^verbatim>\<open>listen(port, host, callback)\<close> throws an assertion error, leaving the store
  as it was, if the channel has listened before, if \<^verbatim>\<open>host\<close> is not a string, if \<^verbatim>\<open>port\<close>
  is not a number, or if \<^verbatim>\<open>host\<close> is \<^verbatim>\<open>0.0.0.0\<close>. In every other case it succeeds and
  sets \<^verbatim>\<open>listened\<close> before it returns, while \<^verbatim>\<open>listening\<close> is unchanged and a socket
  created by this call has no address yet (the bind is still in flight); from that store
  every further \<^verbatim>\<open>listen\<close>, whatever its arguments, fails with
  \<^verbatim>\<open>TChannel can only listen once\<close>.
\<close>

theorem listen_fails_fast:
  "(listened (chans st c) \<or> typeof hst \<noteq> ''string'' \<or> typeof port \<noteq> ''number'' \<or>
    hst = JStr ''0.0.0.0''
      \<longrightarrow> (\<exists>msg. listen st c port hst cb = (Inl (AssertionError msg), st))) \<and>
   (\<not> (listened (chans st c) \<or> typeof hst \<noteq> ''string'' \<or> typeof port \<noteq> ''number'' \<or>
       hst = JStr ''0.0.0.0'')
      \<longrightarrow> (\<exists>st1. listen st c port hst cb = (Inr (), st1) \<and>
                listened (chans st1 c) \<and>
                listening (chans st1 c) = listening (chans st c) \<and>
                (serverSocket (chans st c) = None \<longrightarrow>
                   serverSocket (chans st1 c) = Some \<lparr>address = None\<rparr>) \<and>
                (\<forall>port1 hst1 cb1.
                   listen st1 c port1 hst1 cb1 =
                     (Inl (AssertionError ''TChannel can only listen once''), st1))))"
proof (intro conjI impI)
  assume "listened (chans st c) \<or> typeof hst \<noteq> ''string'' \<or> typeof port \<noteq> ''number'' \<or>
    hst = JStr ''0.0.0.0''"
  then show "\<exists>msg. listen st c port hst cb = (Inl (AssertionError msg), st)"
    by (auto simp: listen_def)
next
  assume a: "\<not> (listened (chans st c) \<or> typeof hst \<noteq> ''string'' \<or> typeof port \<noteq> ''number'' \<or>
       hst = JStr ''0.0.0.0'')"
  then obtain p h where ph: "port = JNum p" "hst = JStr h" "h \<noteq> ''0.0.0.0''"
    by (cases port; cases hst) auto
  from a have nl: "\<not> listened (chans st c)" by simp
  let ?st1 = "snd (listen st c port hst cb)"
  have 1: "listen st c port hst cb = (Inr (), ?st1)"
    using nl ph by (simp add: listen_def Let_def)
  have 2: "listened (chans ?st1 c)"
    using nl ph by (simp add: listen_def Let_def getServer_def split: option.splits)
  have 3: "listening (chans ?st1 c) = listening (chans st c)"
    using nl ph by (simp add: listen_def Let_def getServer_def split: option.splits)
  have 4: "serverSocket (chans st c) = None \<longrightarrow>
                   serverSocket (chans ?st1 c) = Some \<lparr>address = None\<rparr>"
    using nl ph by (simp add: listen_def Let_def getServer_def split: option.splits)
  have 5: "\<forall>port1 hst1 cb1. listen ?st1 c port1 hst1 cb1 =
                     (Inl (AssertionError ''TChannel can only listen once''), ?st1)"
    using 2 by (simp add: listen_def)
  from 1 2 3 4 5 show "\<exists>st1. listen st c port hst cb = (Inr (), st1) \<and>
                listened (chans st1 c) \<and>
                listening (chans st1 c) = listening (chans st c) \<and>
                (serverSocket (chans st c) = None \<longrightarrow>
                   serverSocket (chans st1 c) = Some \<lparr>address = None\<rparr>) \<and>
                (\<forall>port1 hst1 cb1.
                   listen st1 c port1 hst1 cb1 =
                     (Inl (AssertionError ''TChannel can only listen once''), st1))"
  proof (intro exI conjI)
    show "listen st c port hst cb = (Inr (), ?st1)" by (rule 1)
  qed
qed

theorem listen_fails_fast_witness:
  "(listened (chans ex_listened 0) \<or> typeof JUndefined \<noteq> ''string'') \<and>
   (\<exists>msg. listen ex_listened 0 (JNum 4040) JUndefined NotAFunction =
            (Inl (AssertionError msg), ex_listened)) \<and>
   \<not> (listened (chans ex_sub 0) \<or> typeof (JStr ''127.0.0.1'') \<noteq> ''string'' \<or>
      typeof (JNum 0) \<noteq> ''number'' \<or> JStr ''127.0.0.1'' = JStr ''0.0.0.0'') \<and>
   serverSocket (chans ex_sub 0) = None \<and>
   serverSocket (chans ex_listened 0) = Some \<lparr>address = None\<rparr> \<and>
   \<not> listening (chans ex_listened 0) \<and>
   listen ex_listened 0 (JNum 4041) (JStr ''127.0.0.1'') NotAFunction =
     (Inl (AssertionError ''TChannel can only listen once''), ex_listened)"
proof -
  have a: "\<not> (listened (chans ex_sub 0) \<or> typeof (JStr ''127.0.0.1'') \<noteq> ''string'' \<or>
      typeof (JNum 0) \<noteq> ''number'' \<or> JStr ''127.0.0.1'' = JStr ''0.0.0.0'')"
    by (simp add: ex_facts)
  have b: "listened (chans ex_listened 0) \<or> typeof JUndefined \<noteq> ''string''"
    by simp
  have c: "serverSocket (chans ex_sub 0) = None" "\<not> listening (chans ex_sub 0)"
    by (simp_all add: ex_facts)
  from a b c listen_fails_fast [of ex_sub 0 "JStr ''127.0.0.1''" "JNum 0" "UserFn 1"]
    listen_fails_fast [of ex_listened 0 JUndefined "JNum 4040" NotAFunction]
  show ?thesis
    unfolding ex_listened_def by (metis snd_conv)
qed

text \<open>
  \<^bold>\<open>C9.\<close> \<^verbatim>\<open>register(name, handler)\<close> returns normally exactly when the channel's handler
  carries the type tag of the endpoint handler, and then its one effect is the call of the
  handler's own \<^verbatim>\<open>register\<close> with the same arguments. With the tag of the service-name
  handler it throws \<^verbatim>\<open>TopLevelRegisterError\<close>; with any other tag, no tag, or no handler it
  throws \<^verbatim>\<open>InvalidHandlerForRegister\<close>. The store is unchanged by a throw.
\<close>

theorem register_by_handler_type:
  "((\<exists>u st1. register st c name fn = (Inr u, st1)) \<longleftrightarrow>
      (\<exists>h. handler (chans st c) = Some h \<and> handler_type h = Some ''tchannel.endpoint-handler'')) \<and>
   ((\<exists>h. handler (chans st c) = Some h \<and> handler_type h = Some ''tchannel.endpoint-handler'')
      \<longrightarrow> register st c name fn = (Inr (), emit (HandlerRegister c name fn) st)) \<and>
   ((\<exists>h. handler (chans st c) = Some h \<and> handler_type h = Some ''tchannel.service-name-handler'')
      \<longrightarrow> register st c name fn = (Inl TopLevelRegisterError, st)) \<and>
   (\<not> (\<exists>h. handler (chans st c) = Some h \<and>
            (handler_type h = Some ''tchannel.endpoint-handler'' \<or>
             handler_type h = Some ''tchannel.service-name-handler''))
      \<longrightarrow> (\<exists>t. register st c name fn = (Inl (InvalidHandlerForRegister t), st)))"
  by (cases "handler (chans st c)") (auto simp: register_def Let_def)

theorem register_by_handler_type_witness:
  "handler (chans ex_sub 1) = Some (EndpointHandler ''svc'') \<and>
   register ex_sub 1 ''echo'' 7 = (Inr (), emit (HandlerRegister 1 ''echo'' 7) ex_sub) \<and>
   handler (chans ex_sub 0) = Some (TChannelServiceNameHandler 0) \<and>
   register ex_sub 0 ''echo'' 7 = (Inl TopLevelRegisterError, ex_sub) \<and>
   handler (chans ex_custom 0) = Some (CustomHandler (Some ''relay'')) \<and>
   (\<exists>t. register ex_custom 0 ''echo'' 7 = (Inl (InvalidHandlerForRegister t), ex_custom))"
proof -
  have 1: "handler (chans ex_sub 1) = Some (EndpointHandler ''svc'')"
    and 0: "handler (chans ex_sub 0) = Some (TChannelServiceNameHandler 0)"
    and 2: "handler (chans ex_custom 0) = Some (CustomHandler (Some ''relay''))"
    by (simp_all add: ex_facts ex_custom_facts)
  from 0 1 2 register_by_handler_type [of ex_sub 1 "''echo''" 7]
    register_by_handler_type [of ex_sub 0 "''echo''" 7]
    register_by_handler_type [of ex_custom 0 "''echo''" 7]
  show ?thesis by simp
qed

text \<open>
  \<^bold>\<open>C5.\<close> When a socket is accepted on a destroyed channel, the only effect is the log
  line: no connection is constructed and the table is untouched. On a channel that is
  not destroyed, the table afterwards is the old table without the socket's remote
  address, followed by the entry for the new connection; so an entry for the same address
  was deleted before the new one was inserted, and a table with one entry per address
  keeps that property. If the address was present, the trace shows, in this order: the
  construction of the new connection, \<^verbatim>\<open>resetAll\<close> on the old connection with a
  \<^verbatim>\<open>SocketClosedError\<close> whose reason is \<^verbatim>\<open>duplicate remoteAddr incoming conn\<close>, the
  installation of the socket-close handler, and the \<^verbatim>\<open>connection\<close> event.
\<close>

theorem accept_keeps_one_entry_per_address:
  fixes st c sock
  defines "addr \<equiv> remoteAddress sock @ '':'' @ string_of_nat (remotePort sock)"
  defines "res \<equiv> onServerSocketConnection st c sock"
  shows
  "(destroyed (chans st c) \<longrightarrow>
      res = (Inr (), emit (LogError ''got incoming socket whilst destroyed'') st)) \<and>
   (\<not> destroyed (chans st c) \<longrightarrow>
      (\<forall>tbl. serverConnections (chans st c) = Some tbl \<longrightarrow>
         fst res = Inr () \<and>
         serverConnections (chans (snd res) c) =
           Some (AList.delete addr tbl @ [(addr, nextConn st)]) \<and>
         (distinct (map fst tbl) \<longrightarrow>
            distinct (map fst (AList.delete addr tbl @ [(addr, nextConn st)]))) \<and>
         (\<forall>oldConn. map_of tbl addr = Some oldConn \<longrightarrow>
            trace (snd res) = trace st @
              [NewConnection (nextConn st) c (sockId sock) addr,
               ConnOnSpan (nextConn st),
               ResetAll oldConn (SocketClosedError ''duplicate remoteAddr incoming conn''),
               SockOnClose (sockId sock) c addr,
               Emit c (EvConnection (nextConn st))])))"
  unfolding res_def
  using accept_destroyed [of st c sock] accept_result [of st c _ sock]
    accept_table [of st c _ addr sock] accept_trace_duplicate [of st c _ addr sock]
    distinct_reinsert [of _ addr "nextConn st"] addr_def
  by blast

theorem accept_keeps_one_entry_per_address_witness:
  "\<not> destroyed (chans ex_conn1 0) \<and>
   serverConnections (chans ex_conn1 0) = Some [(''10.0.0.1:5000'', 0)] \<and>
   distinct (map fst [(''10.0.0.1:5000'', 0::nat)]) \<and>
   map_of [(''10.0.0.1:5000'', 0::nat)]
     (remoteAddress ex_sock2 @ '':'' @ string_of_nat (remotePort ex_sock2)) = Some 0 \<and>
   serverConnections (chans ex_conn2 0) = Some [(''10.0.0.1:5000'', 1)] \<and>
   trace ex_conn2 = trace ex_conn1 @
     [NewConnection 1 0 2 ''10.0.0.1:5000'', ConnOnSpan 1,
      ResetAll 0 (SocketClosedError ''duplicate remoteAddr incoming conn''),
      SockOnClose 2 0 ''10.0.0.1:5000'', Emit 0 (EvConnection 1)] \<and>
   destroyed (chans ex_top_closed 0) \<and>
   onServerSocketConnection ex_top_closed 0 ex_sock1 =
     (Inr (), emit (LogError ''got incoming socket whilst destroyed'') ex_top_closed)"
proof -
  have live: "\<not> destroyed (chans ex_conn1 0)"
    and tbl: "serverConnections (chans ex_conn1 0) = Some [(''10.0.0.1:5000'', 0)]"
    and n: "nextConn ex_conn1 = 1"
    by (simp_all add: ex_facts)
  have addr: "remoteAddress ex_sock2 @ '':'' @ string_of_nat (remotePort ex_sock2) =
      ''10.0.0.1:5000''"
    by (simp add: ex_sock2_def string_of_nat.simps digit_char_def)
  have sid: "sockId ex_sock2 = 2" by (simp add: ex_sock2_def)
  have dead: "destroyed (chans ex_top_closed 0)" by (simp add: ex_top_closed_facts)
  from accept_keeps_one_entry_per_address [of ex_conn1 0 ex_sock2]
    accept_keeps_one_entry_per_address [of ex_top_closed 0 ex_sock1]
    live tbl dead
  show ?thesis
    unfolding addr n sid ex_conn2_def [symmetric] by simp
qed

text \<open>
  \<^bold>\<open>C10.\<close> The close handler that \<^verbatim>\<open>onServerSocketConnection\<close> installs on a socket
  deletes the table entry of the socket's remote address without looking at the
  connection stored there. So when two sockets from one remote address are accepted in
  turn, the table holds the second connection, the first connection has been reset, and
  the close of the first socket then removes the entry of the second connection: the
  address is no longer in the table.
\<close>

theorem superseded_socket_close_drops_newer_connection:
  fixes st c s1 s2
  defines "addr \<equiv> remoteAddress s1 @ '':'' @ string_of_nat (remotePort s1)"
  defines "st1 \<equiv> snd (onServerSocketConnection st c s1)"
  defines "st2 \<equiv> snd (onServerSocketConnection st1 c s2)"
  assumes live: "\<not> destroyed (chans st c)"
    and tbl: "serverConnections (chans st c) = Some tbl"
    and same: "remoteAddress s2 = remoteAddress s1" "remotePort s2 = remotePort s1"
  shows
  "(\<forall>s a t. serverConnections (chans s c) = Some t \<longrightarrow>
      onSocketClose s c a =
        (Inr (), upd_chan c (\<lambda>ch. ch\<lparr>serverConnections := Some (AList.delete a t)\<rparr>) s) \<and>
      map_of (AList.delete a t) a = None) \<and>
   (\<exists>t2. serverConnections (chans st2 c) = Some t2 \<and>
          map_of t2 addr = Some (Suc (nextConn st))) \<and>
   ResetAll (nextConn st) (SocketClosedError ''duplicate remoteAddr incoming conn'')
     \<in> set (trace st2) \<and>
   (\<exists>t3. serverConnections (chans (socket_closes (sockId s1) st2) c) = Some t3 \<and>
          map_of t3 addr = None)"
proof -
  let ?t1 = "AList.delete addr tbl @ [(addr, nextConn st)]"
  have ad: "addr = remoteAddress s1 @ '':'' @ string_of_nat (remotePort s1)"
    by (simp add: addr_def)
  have t1: "serverConnections (chans st1 c) = Some ?t1"
    unfolding st1_def using live tbl ad by (rule accept_table)
  have live1: "\<not> destroyed (chans st1 c)"
    unfolding st1_def using live by (rule accept_destroyed_flag)
  have n1: "nextConn st1 = Suc (nextConn st)"
    unfolding st1_def using live tbl
    by (simp add: onServerSocketConnection_def Let_def split: option.splits)
  have addr2: "addr = remoteAddress s2 @ '':'' @ string_of_nat (remotePort s2)"
    using same by (simp add: addr_def)
  have old: "map_of ?t1 addr = Some (nextConn st)"
    by (rule map_of_reinsert)
  have t2: "serverConnections (chans st2 c) = Some (AList.delete addr ?t1 @ [(addr, nextConn st1)])"
    unfolding st2_def using live1 t1 addr2 by (rule accept_table)
  have A: "\<exists>t2. serverConnections (chans st2 c) = Some t2 \<and>
          map_of t2 addr = Some (Suc (nextConn st))"
    using t2 n1 map_of_reinsert [of addr ?t1 "nextConn st1"] by simp
  have "trace st2 = trace st1 @
     [NewConnection (nextConn st1) c (sockId s2) addr, ConnOnSpan (nextConn st1),
      ResetAll (nextConn st) (SocketClosedError ''duplicate remoteAddr incoming conn''),
      SockOnClose (sockId s2) c addr, Emit c (EvConnection (nextConn st1))]"
    unfolding st2_def using live1 t1 addr2 old by (rule accept_trace_duplicate)
  then have B: "ResetAll (nextConn st) (SocketClosedError ''duplicate remoteAddr incoming conn'')
     \<in> set (trace st2)" by simp
  have "SockOnClose (sockId s1) c addr \<in> set (trace st1)"
    unfolding st1_def ad using live tbl by (rule accept_installs_handler)
  then have h: "SockOnClose (sockId s1) c addr \<in> set (trace st2)"
    unfolding st2_def using accept_trace_grows by blast
  have "has_table c st2" using t2 by (simp add: has_table_def)
  then have "lacks c addr (fold (run_handler (sockId s1)) (trace st2) st2)"
    using h by (rule fold_removes)
  then have C: "\<exists>t3. serverConnections (chans (socket_closes (sockId s1) st2) c) = Some t3 \<and>
          map_of t3 addr = None"
    by (simp add: socket_closes_def lacks_def)
  have D: "\<forall>s a t. serverConnections (chans s c) = Some t \<longrightarrow>
      onSocketClose s c a =
        (Inr (), upd_chan c (\<lambda>ch. ch\<lparr>serverConnections := Some (AList.delete a t)\<rparr>) s) \<and>
      map_of (AList.delete a t) a = None"
    by (simp add: onSocketClose_deletes delete_conv')
  from A B C D show ?thesis by blast
qed

theorem superseded_socket_close_drops_newer_connection_witness:
  "\<not> destroyed (chans ex_listening 0) \<and>
   serverConnections (chans ex_listening 0) = Some [] \<and>
   remoteAddress ex_sock2 = remoteAddress ex_sock1 \<and>
   remotePort ex_sock2 = remotePort ex_sock1 \<and>
   (\<exists>t2. serverConnections (chans ex_conn2 0) = Some t2 \<and> map_of t2 ''10.0.0.1:5000'' = Some 1) \<and>
   (\<exists>t3. serverConnections (chans (socket_closes (sockId ex_sock1) ex_conn2) 0) = Some t3 \<and>
          map_of t3 ''10.0.0.1:5000'' = None)"
proof -
  have live: "\<not> destroyed (chans ex_listening 0)"
    and tbl: "serverConnections (chans ex_listening 0) = Some []"
    and n: "nextConn ex_listening = 0"
    by (simp_all add: ex_facts)
  have same: "remoteAddress ex_sock2 = remoteAddress ex_sock1"
    "remotePort ex_sock2 = remotePort ex_sock1"
    by (simp_all add: ex_sock1_def ex_sock2_def)
  have addr: "remoteAddress ex_sock1 @ '':'' @ string_of_nat (remotePort ex_sock1) =
      ''10.0.0.1:5000''"
    by (simp add: ex_sock1_def string_of_nat.simps digit_char_def)
  from superseded_socket_close_drops_newer_connection [OF live tbl same] live tbl same
  show ?thesis
    unfolding addr n ex_conn1_def [symmetric] ex_conn2_def [symmetric] by simp
qed

text \<open>
  \<^bold>\<open>C6.\<close> When the \<^verbatim>\<open>listening\<close> event arrives, the socket has its address. On a
  destroyed channel the handler writes a log line and changes nothing else. Otherwise
  \<^verbatim>\<open>hostPort\<close> becomes the host, a colon and the bound port in decimal, \<^verbatim>\<open>listening\<close>
  becomes true, every registered sub-channel without a \<^verbatim>\<open>hostPort\<close> receives the new
  value while a sub-channel that has one keeps it, and the last effect is the
  \<^verbatim>\<open>listening\<close> event on the channel. A sub-channel that \<^verbatim>\<open>makeSubChannel\<close> creates on
  a channel that has a \<^verbatim>\<open>hostPort\<close> is returned with that \<^verbatim>\<open>hostPort\<close>.
\<close>

theorem listening_event_sets_hostPort:
  fixes st c srv port
  defines "hp \<equiv> str_of_opt (host (chans st c)) @ '':'' @ string_of_nat port"
  defines "st1 \<equiv> snd (onServerSocketListening st c)"
  assumes srv: "serverSocket (chans st c) = Some srv" "address srv = Some port"
  shows
  "(destroyed (chans st c) \<longrightarrow>
      onServerSocketListening st c =
        (Inr (), emit (LogError ''got serverSocket listen whilst destroyed'') st)) \<and>
   (\<not> destroyed (chans st c) \<longrightarrow>
      fst (onServerSocketListening st c) = Inr () \<and>
      hostPort (chans st1 c) = Some hp \<and>
      listening (chans st1 c) \<and>
      trace st1 = trace st @ [Emit c EvListening] \<and>
      (\<forall>subs name b.
         subChannels (chans st c) = Some subs \<longrightarrow> map_of subs name = Some b \<longrightarrow> b \<noteq> c \<longrightarrow>
         hostPort (chans st1 b) =
           (if truthyS (hostPort (chans st b)) then hostPort (chans st b) else Some hp))) \<and>
   (\<forall>dT s self opts chan s1.
      makeSubChannel dT s self opts = (Inr chan, s1) \<longrightarrow> self < nextChan s \<longrightarrow>
      truthyS (hostPort (chans s self)) \<longrightarrow>
      hostPort (chans s1 chan) = hostPort (chans s self))"
proof (intro conjI impI allI)
  assume "destroyed (chans st c)"
  with srv show "onServerSocketListening st c =
        (Inr (), emit (LogError ''got serverSocket listen whilst destroyed'') st)"
    by (rule listening_destroyed)
next
  assume live: "\<not> destroyed (chans st c)"
  note l = listening_live [OF srv live]
  show "fst (onServerSocketListening st c) = Inr ()" by (rule l(1))
  show "hostPort (chans st1 c) = Some hp" unfolding st1_def hp_def by (rule l(2))
  show "listening (chans st1 c)" unfolding st1_def by (rule l(3))
  show "trace st1 = trace st @ [Emit c EvListening]" unfolding st1_def by (rule l(4))
  fix subs name b
  assume "subChannels (chans st c) = Some subs" "map_of subs name = Some b" "b \<noteq> c"
  then show "hostPort (chans st1 b) =
           (if truthyS (hostPort (chans st b)) then hostPort (chans st b) else Some hp)"
    unfolding st1_def hp_def by (rule l(5))
next
  fix dT s self opts chan s1
  assume m: "makeSubChannel dT s self opts = (Inr chan, s1)" and a: "self < nextChan s"
    and t: "truthyS (hostPort (chans s self))"
  from a have ne: "self \<noteq> nextChan s" by simp
  from makeSubChannel_Inr [OF m] made_props(4) [OF ne t]
  show "hostPort (chans s1 chan) = hostPort (chans s self)" by simp
qed

theorem listening_event_sets_hostPort_witness:
  "serverSocket (chans ex_bound 0) = Some \<lparr>address = Some 4040\<rparr> \<and>
   address \<lparr>address = Some 4040\<rparr> = Some 4040 \<and>
   \<not> destroyed (chans ex_bound 0) \<and>
   subChannels (chans ex_bound 0) = Some [(''svc'', 1)] \<and>
   map_of [(''svc'', 1::nat)] ''svc'' = Some 1 \<and> (1::nat) \<noteq> 0 \<and>
   hostPort (chans ex_listening 0) = Some ''127.0.0.1:4040'' \<and>
   listening (chans ex_listening 0) \<and>
   hostPort (chans ex_listening 1) = Some ''127.0.0.1:4040'' \<and>
   trace ex_listening = trace ex_bound @ [Emit 0 EvListening] \<and>
   destroyed (chans ex_bound_closed 0) \<and>
   serverSocket (chans ex_bound_closed 0) = Some \<lparr>address = Some 4040\<rparr> \<and>
   onServerSocketListening ex_bound_closed 0 =
     (Inr (), emit (LogError ''got serverSocket listen whilst destroyed'') ex_bound_closed) \<and>
   (0::nat) < nextChan ex_listening \<and> truthyS (hostPort (chans ex_listening 0)) \<and>
   fst (makeSubChannel 100 ex_listening 0 (Some ex_late_options)) = Inr 2 \<and>
   hostPort (chans (snd (makeSubChannel 100 ex_listening 0 (Some ex_late_options))) 2) =
     hostPort (chans ex_listening 0)"
proof -
  have s: "serverSocket (chans ex_bound 0) = Some \<lparr>address = Some 4040\<rparr>"
    and a: "address \<lparr>address = Some 4040\<rparr> = Some 4040"
    and live: "\<not> destroyed (chans ex_bound 0)"
    and subs: "subChannels (chans ex_bound 0) = Some [(''svc'', 1)]"
    and h: "host (chans ex_bound 0) = Some ''127.0.0.1''"
    and hs: "hostPort (chans ex_bound 1) = None"
    by (simp_all add: ex_facts)
  have s2: "serverSocket (chans ex_bound_closed 0) = Some \<lparr>address = Some 4040\<rparr>"
    and dead: "destroyed (chans ex_bound_closed 0)"
    by (simp_all add: ex_bound_closed_facts ex_facts)
  have p: "string_of_nat 4040 = ''4040''"
    by (simp add: string_of_nat.simps digit_char_def)
  have late: "makeSubChannel 100 ex_listening 0 (Some ex_late_options) =
      (Inr 2, snd (makeSubChannel 100 ex_listening 0 (Some ex_late_options)))"
    using ex_late_facts(1) by (metis prod.collapse)
  have pre: "(0::nat) < nextChan ex_listening" "truthyS (hostPort (chans ex_listening 0))"
    by (simp_all add: ex_facts)
  from listening_event_sets_hostPort [OF s a] live subs h hs p
  have 1: "hostPort (chans ex_listening 0) = Some ''127.0.0.1:4040''"
    "listening (chans ex_listening 0)"
    "hostPort (chans ex_listening 1) = Some ''127.0.0.1:4040''"
    "trace ex_listening = trace ex_bound @ [Emit 0 EvListening]"
    unfolding ex_listening_def [symmetric] by simp_all
  from listening_event_sets_hostPort [OF s2 a] dead
  have 2: "onServerSocketListening ex_bound_closed 0 =
     (Inr (), emit (LogError ''got serverSocket listen whilst destroyed'') ex_bound_closed)"
    by simp
  from listening_event_sets_hostPort [OF s a] late pre
  have 3: "hostPort (chans (snd (makeSubChannel 100 ex_listening 0 (Some ex_late_options))) 2) =
     hostPort (chans ex_listening 0)" by blast
  from s a live subs 1 2 3 dead s2 pre ex_late_facts(1) show ?thesis by simp
qed

text \<open>
  \<^bold>\<open>C2\<close> (as stated, refuted). The claim is that a sub-channel's \<^verbatim>\<open>peers\<close> is the pool
  object of its top channel. The constructor creates a pool for every channel, the
  sub-channel included, and \<^verbatim>\<open>makeSubChannel\<close> never assigns \<^verbatim>\<open>peers\<close>: after the top
  channel of the example has made the sub-channel \<^verbatim>\<open>svc\<close>, the two pools differ.
\<close>

theorem sub_channel_pool_differs:
  "fst (makeSubChannel 100 ex_top 0 (Some ex_sub_options)) = Inr 1 \<and>
   peers (chans (snd (makeSubChannel 100 ex_top 0 (Some ex_sub_options))) 1) \<noteq>
   peers (chans (snd (makeSubChannel 100 ex_top 0 (Some ex_sub_options))) 0)"
  unfolding ex_sub_def [symmetric]
  by (simp add: ex_facts) (simp add: ex_sub_def ex_sub_options_def op_defs ex_top_facts)

text \<open>
  \<^bold>\<open>C2\<close> (amended). The \<^verbatim>\<open>peers\<close> attribute of a sub-channel created by
  \<^verbatim>\<open>makeSubChannel\<close> is the pool that the sub-channel's own constructor created: a new
  object, different from the pool of the top channel, which stays as it was. What the two
  share is peers: for an entry of \<^verbatim>\<open>options.peers\<close> that is an address string the peer
  is obtained from the top channel's pool with \<^verbatim>\<open>add\<close> and attached to the sub-channel's
  pool with \<^verbatim>\<open>addPeer\<close>, and an entry that is a peer object is attached to the
  sub-channel's pool; the call has no other effect on a collaborator.
\<close>

theorem sub_channel_has_own_pool:
  assumes "makeSubChannel dT st self opts = (Inr chan, st1)"
    and "self < nextChan st" and "peers (chans st self) < nextPool st"
  shows "peers (chans st1 chan) = nextPool st \<and>
         nextPool st1 = Suc (nextPool st) \<and>
         peers (chans st1 self) = peers (chans st self) \<and>
         peers (chans st1 chan) \<noteq> peers (chans st1 self) \<and>
         trace st1 =
           trace st @
           concat (map (peerEffects (peers (chans st self)) (peers (chans st1 chan)))
                     (case oPeers (case opts of None \<Rightarrow> empty_options | Some o1 \<Rightarrow> o1) of
                        None \<Rightarrow> []
                      | Some ps \<Rightarrow> ps))"
proof -
  from assms(2) have ne: "self \<noteq> nextChan st" by simp
  from makeSubChannel_Inr [OF assms(1)] made_props(1) [OF ne] made_props(3) [OF ne]
    made_props(2) made_trace [OF ne] assms(3)
  show ?thesis by simp
qed

theorem sub_channel_has_own_pool_witness:
  "makeSubChannel 100 ex_top 0 (Some ex_sub_options) = (Inr 1, ex_sub) \<and>
   (0::nat) < nextChan ex_top \<and> peers (chans ex_top 0) < nextPool ex_top \<and>
   peers (chans ex_sub 1) = 1 \<and> peers (chans ex_sub 0) = 0 \<and>
   trace ex_sub = [PeersAdd 0 ''10.0.0.9:4040'', PeersAddPeer 1 (PeerOf 0 ''10.0.0.9:4040'')]"
proof -
  have "fst (makeSubChannel 100 ex_top 0 (Some ex_sub_options)) = Inr 1"
    by (simp add: ex_sub_options_def op_defs ex_top_facts)
  then have m: "makeSubChannel 100 ex_top 0 (Some ex_sub_options) = (Inr 1, ex_sub)"
    unfolding ex_sub_def by (metis prod.collapse)
  have pre: "(0::nat) < nextChan ex_top" "peers (chans ex_top 0) < nextPool ex_top"
    "nextPool ex_top = 1" "peers (chans ex_top 0) = 0" "trace ex_top = []"
    by (simp_all add: ex_top_facts)
  have o: "oPeers ex_sub_options = Some [PeerStr ''10.0.0.9:4040'']"
    by (simp add: ex_sub_options_def empty_options_def)
  from sub_channel_has_own_pool [OF m pre(1) pre(2)] m pre o
  show ?thesis by (simp add: peerEffects_def)
qed

text \<open>
  \<^bold>\<open>C4\<close> (the code departs from the claim). The claim has a top channel fail with
  \<^verbatim>\<open>TopLevelRequestError\<close> whenever no sub-channel is registered under the service.
  The table of sub-channels is an object literal, so for a service that is the name of a
  property of \<^verbatim>\<open>Object.prototype\<close> the test \<^verbatim>\<open>self.subChannels[opts.service]\<close> is truthy
  although no such sub-channel exists, and calling \<^verbatim>\<open>request\<close> on the inherited value
  throws a \<^verbatim>\<open>TypeError\<close>. The table of inbound connections of the same file is made with
  \<^verbatim>\<open>Object.create(null)\<close> and has no such entries.
\<close>

theorem request_for_inherited_service_name:
  "\<not> destroyed (chans ex_conn2 0) \<and> serviceName (chans ex_conn2 0) = [] \<and>
   subChannels (chans ex_conn2 0) = Some [(''svc'', 1)] \<and>
   request 1 ex_conn2 0 (Some (empty_reqopts\<lparr>service := Some ''toString''\<rparr>)) =
     Some (Inl TypeError, ex_conn2)"
  by (simp add: ex_facts merged_def subChannelFor_def get_prop_def object_prototype_keys_def
        Let_def extend_reqopts_def empty_reqopts_def)

text \<open>
  The rest of C4 holds for every value of the options. Let \<open>opts\<close> be the options that
  \<^verbatim>\<open>request\<close> routes on: the request defaults overridden by the caller's options, with
  \<^verbatim>\<open>service\<close> taken from \<^verbatim>\<open>serviceName\<close> when only the latter is set; a host or a
  \<^verbatim>\<open>streamed\<close> flag given by the caller is the one in \<open>opts\<close>. On a channel that is not
  destroyed:
  \<^item> if the service name of the channel is empty and \<open>opts\<close> has no host, the call is the
    call of \<^verbatim>\<open>request(opts)\<close> on the sub-channel registered under \<^verbatim>\<open>opts.service\<close>; it
    fails with \<^verbatim>\<open>TopLevelRequestError\<close>, leaving the store as it was, when the table has
    nothing under that name, own or inherited;
  \<^item> otherwise, if \<open>opts\<close> has a host or asks for streaming, the request is the one that the
    peer pool's \<^verbatim>\<open>request\<close> returns, never a single-shot request;
  \<^item> otherwise it is a single-shot request constructed on this channel.
  Whenever a request is returned, with whatever fuel, the last effect before the return is
  the \<^verbatim>\<open>request\<close> event that carries it. If the sub-channel that a top channel delegates
  to has a service name, as every sub-channel made by \<^verbatim>\<open>makeSubChannel\<close> has, fuel 2 is
  enough for the call to return.
\<close>

lemma request_routing:
  fixes st c options0
  defines "opts \<equiv> merged (chans st c) options0"
  assumes live: "\<not> destroyed (chans st c)"
  shows
  "(\<forall>o1. options0 = Some o1 \<longrightarrow>
      rHost opts = over (rHost (requestDefaults (chans st c))) (rHost o1) \<and>
      streamed opts = over (streamed (requestDefaults (chans st c))) (streamed o1)) \<and>
   (serviceName (chans st c) = [] \<and> \<not> truthyS (rHost opts) \<longrightarrow>
      (\<forall>sub. subChannelFor (chans st c) opts = Own sub \<longrightarrow>
         request (Suc n) st c options0 = request n st sub (Some opts)) \<and>
      (subChannelFor (chans st c) opts = Inherited \<longrightarrow>
         request (Suc n) st c options0 = Some (Inl TypeError, st)) \<and>
      (subChannelFor (chans st c) opts = Absent \<longrightarrow>
         request (Suc n) st c options0 = Some (Inl TopLevelRequestError, st))) \<and>
   (\<not> (serviceName (chans st c) = [] \<and> \<not> truthyS (rHost opts)) \<longrightarrow>
      (truthyS (rHost opts) \<or> truthyB (streamed opts) \<longrightarrow>
         request (Suc n) st c options0 =
           Some (Inr (PeersRequest (peers (chans st c)) opts),
                 st\<lparr>trace := trace st @
                    [PeersRequestCall (peers (chans st c)) opts,
                     Emit c (EvRequest (PeersRequest (peers (chans st c)) opts))]\<rparr>)) \<and>
      (\<not> (truthyS (rHost opts) \<or> truthyB (streamed opts)) \<longrightarrow>
         request (Suc n) st c options0 =
           Some (Inr (TChannelRequest c opts),
                 st\<lparr>trace := trace st @
                    [NewRequest c opts, Emit c (EvRequest (TChannelRequest c opts))]\<rparr>))) \<and>
   (\<forall>m r st1. request m st c options0 = Some (Inr r, st1) \<longrightarrow>
      (\<exists>c1 es. trace st1 = trace st @ es @ [Emit c1 (EvRequest r)])) \<and>
   ((\<forall>sub. subChannelFor (chans st c) opts = Own sub \<longrightarrow> serviceName (chans st sub) \<noteq> [])
      \<longrightarrow> request (Suc (Suc n)) st c options0 \<noteq> None)"
proof -
  have A: "\<forall>o1. options0 = Some o1 \<longrightarrow>
      rHost opts = over (rHost (requestDefaults (chans st c))) (rHost o1) \<and>
      streamed opts = over (streamed (requestDefaults (chans st c))) (streamed o1)"
    by (auto simp: opts_def merged_def Let_def extend_reqopts_def empty_reqopts_def)
  have B: "serviceName (chans st c) = [] \<and> \<not> truthyS (rHost opts) \<longrightarrow>
      (\<forall>sub. subChannelFor (chans st c) opts = Own sub \<longrightarrow>
         request (Suc n) st c options0 = request n st sub (Some opts)) \<and>
      (subChannelFor (chans st c) opts = Inherited \<longrightarrow>
         request (Suc n) st c options0 = Some (Inl TypeError, st)) \<and>
      (subChannelFor (chans st c) opts = Absent \<longrightarrow>
         request (Suc n) st c options0 = Some (Inl TopLevelRequestError, st))"
    unfolding opts_def using request_delegates [OF live] request_top_level_error [OF live]
      request_inherited [OF live]
    by blast
  have C: "\<not> (serviceName (chans st c) = [] \<and> \<not> truthyS (rHost opts)) \<longrightarrow>
      (truthyS (rHost opts) \<or> truthyB (streamed opts) \<longrightarrow>
         request (Suc n) st c options0 =
           Some (Inr (PeersRequest (peers (chans st c)) opts),
                 st\<lparr>trace := trace st @
                    [PeersRequestCall (peers (chans st c)) opts,
                     Emit c (EvRequest (PeersRequest (peers (chans st c)) opts))]\<rparr>)) \<and>
      (\<not> (truthyS (rHost opts) \<or> truthyB (streamed opts)) \<longrightarrow>
         request (Suc n) st c options0 =
           Some (Inr (TChannelRequest c opts),
                 st\<lparr>trace := trace st @
                    [NewRequest c opts, Emit c (EvRequest (TChannelRequest c opts))]\<rparr>))"
    unfolding opts_def using request_via_peers [OF live] request_single_shot [OF live]
    by blast
  have D: "\<forall>m r st1. request m st c options0 = Some (Inr r, st1) \<longrightarrow>
      (\<exists>c1 es. trace st1 = trace st @ es @ [Emit c1 (EvRequest r)])"
    using request_emits_last by blast
  have E: "(\<forall>sub. subChannelFor (chans st c) opts = Own sub \<longrightarrow>
              serviceName (chans st sub) \<noteq> [])
      \<longrightarrow> request (Suc (Suc n)) st c options0 \<noteq> None"
    unfolding opts_def using request_returns [of st c options0 n] by blast
  from A B C D E show ?thesis by blast
qed

lemma request_routing_example:
  "\<not> destroyed (chans ex_conn2 0) \<and> \<not> destroyed (chans ex_conn2 1) \<and>
   serviceName (chans ex_conn2 0) = [] \<and> serviceName (chans ex_conn2 1) = ''svc'' \<and>
   subChannelFor (chans ex_conn2 0) (merged (chans ex_conn2 0) (Some (empty_reqopts\<lparr>service := Some ''svc''\<rparr>)))
     = Own 1 \<and>
   request 2 ex_conn2 0 (Some (empty_reqopts\<lparr>service := Some ''svc''\<rparr>)) =
     Some (Inr (TChannelRequest 1 (empty_reqopts\<lparr>service := Some ''svc'', timeout := Some 100\<rparr>)),
           ex_conn2\<lparr>trace := trace ex_conn2 @
             [NewRequest 1 (empty_reqopts\<lparr>service := Some ''svc'', timeout := Some 100\<rparr>),
              Emit 1 (EvRequest (TChannelRequest 1
                (empty_reqopts\<lparr>service := Some ''svc'', timeout := Some 100\<rparr>)))]\<rparr>) \<and>
   subChannelFor (chans ex_conn2 0) (merged (chans ex_conn2 0) (Some (empty_reqopts\<lparr>service := Some ''other''\<rparr>)))
     = Absent \<and>
   request 1 ex_conn2 0 (Some (empty_reqopts\<lparr>service := Some ''other''\<rparr>)) =
     Some (Inl TopLevelRequestError, ex_conn2) \<and>
   request 1 ex_conn2 1 (Some (empty_reqopts\<lparr>rHost := Some ''10.0.0.9:4040''\<rparr>)) =
     Some (Inr (PeersRequest 1 (empty_reqopts\<lparr>rHost := Some ''10.0.0.9:4040'', timeout := Some 100\<rparr>)),
           ex_conn2\<lparr>trace := trace ex_conn2 @
             [PeersRequestCall 1 (empty_reqopts\<lparr>rHost := Some ''10.0.0.9:4040'', timeout := Some 100\<rparr>),
              Emit 1 (EvRequest (PeersRequest 1
                (empty_reqopts\<lparr>rHost := Some ''10.0.0.9:4040'', timeout := Some 100\<rparr>)))]\<rparr>)"
proof -
  let ?a = "Some (empty_reqopts\<lparr>service := Some ''svc''\<rparr>)"
  let ?b = "Some (empty_reqopts\<lparr>service := Some ''other''\<rparr>)"
  let ?h = "Some (empty_reqopts\<lparr>rHost := Some ''10.0.0.9:4040''\<rparr>)"
  have live: "\<not> destroyed (chans ex_conn2 0)" "\<not> destroyed (chans ex_conn2 1)"
    and sn: "serviceName (chans ex_conn2 0) = []" "serviceName (chans ex_conn2 1) = ''svc''"
    and pl: "peers (chans ex_conn2 1) = 1"
    by (simp_all add: ex_facts)
  have ma: "merged (chans ex_conn2 0) ?a = empty_reqopts\<lparr>service := Some ''svc'', timeout := Some 100\<rparr>"
    and mb: "merged (chans ex_conn2 0) ?b = empty_reqopts\<lparr>service := Some ''other'', timeout := Some 100\<rparr>"
    and mh: "merged (chans ex_conn2 1) ?h =
               empty_reqopts\<lparr>rHost := Some ''10.0.0.9:4040'', timeout := Some 100\<rparr>"
    and ma1: "merged (chans ex_conn2 1)
                (Some (empty_reqopts\<lparr>service := Some ''svc'', timeout := Some 100\<rparr>)) =
              empty_reqopts\<lparr>service := Some ''svc'', timeout := Some 100\<rparr>"
    by (simp_all add: merged_def Let_def extend_reqopts_def empty_reqopts_def ex_facts)
  have sa: "subChannelFor (chans ex_conn2 0) (empty_reqopts\<lparr>service := Some ''svc'', timeout := Some 100\<rparr>) = Own 1"
    and sb: "subChannelFor (chans ex_conn2 0) (empty_reqopts\<lparr>service := Some ''other'', timeout := Some 100\<rparr>) = Absent"
    by (simp_all add: subChannelFor_def get_prop_def object_prototype_keys_def empty_reqopts_def
          ex_facts)
  have t: "\<not> truthyS (rHost (empty_reqopts\<lparr>service := Some ''svc'', timeout := Some 100\<rparr>))"
    "\<not> truthyS (rHost (empty_reqopts\<lparr>service := Some ''other'', timeout := Some 100\<rparr>))"
    "\<not> truthyB (streamed (empty_reqopts\<lparr>service := Some ''svc'', timeout := Some 100\<rparr>))"
    "truthyS (rHost (empty_reqopts\<lparr>rHost := Some ''10.0.0.9:4040'', timeout := Some 100\<rparr>))"
    by (simp_all add: empty_reqopts_def)
  have 1: "request 2 ex_conn2 0 ?a =
      request 1 ex_conn2 1 (Some (empty_reqopts\<lparr>service := Some ''svc'', timeout := Some 100\<rparr>))"
    using request_routing [OF live(1), of ?a 1] sn(1) t(1) sa unfolding ma
    by (simp add: numeral_2_eq_2 del: request.simps)
  have 2: "request 1 ex_conn2 1 (Some (empty_reqopts\<lparr>service := Some ''svc'', timeout := Some 100\<rparr>)) =
     Some (Inr (TChannelRequest 1 (empty_reqopts\<lparr>service := Some ''svc'', timeout := Some 100\<rparr>)),
           ex_conn2\<lparr>trace := trace ex_conn2 @
             [NewRequest 1 (empty_reqopts\<lparr>service := Some ''svc'', timeout := Some 100\<rparr>),
              Emit 1 (EvRequest (TChannelRequest 1
                (empty_reqopts\<lparr>service := Some ''svc'', timeout := Some 100\<rparr>)))]\<rparr>)"
    using request_routing [OF live(2),
        of "Some (empty_reqopts\<lparr>service := Some ''svc'', timeout := Some 100\<rparr>)" 0]
      sn(2) t(1) t(3) unfolding ma1
    by (simp del: request.simps)
  have 3: "request 1 ex_conn2 0 ?b = Some (Inl TopLevelRequestError, ex_conn2)"
    using request_routing [OF live(1), of ?b 0] sn(1) t(2) sb unfolding mb
    by (simp del: request.simps)
  have 4: "request 1 ex_conn2 1 ?h =
     Some (Inr (PeersRequest 1 (empty_reqopts\<lparr>rHost := Some ''10.0.0.9:4040'', timeout := Some 100\<rparr>)),
           ex_conn2\<lparr>trace := trace ex_conn2 @
             [PeersRequestCall 1 (empty_reqopts\<lparr>rHost := Some ''10.0.0.9:4040'', timeout := Some 100\<rparr>),
              Emit 1 (EvRequest (PeersRequest 1
                (empty_reqopts\<lparr>rHost := Some ''10.0.0.9:4040'', timeout := Some 100\<rparr>)))]\<rparr>)"
    using request_routing [OF live(2), of ?h 0] sn(2) t(4) pl unfolding mh
    by (simp del: request.simps)
  from live sn sa sb 1 2 3 4 show ?thesis
    unfolding ma mb by (simp add: numeral_2_eq_2 del: request.simps)
qed

text \<open>
  \<^bold>\<open>C3\<close> (as stated, refuted). The claim lists the peer pool among the resources for
  which the counter is incremented before the close is initiated. On the bare top channel
  of the example (no socket, no connection, no sub-channel) \<^verbatim>\<open>close\<close> initiates the close
  of the pool and nothing else, and the counter has not been incremented: the trace
  holds no increment and the counter still has its initial value 1.
\<close>

theorem pool_close_without_increment:
  "close 1 ex_top 0 (UserFn 9) = Some (Inr (), ex_top_closed) \<and>
   trace ex_top_closed = [PeersClose 0 (OnClose 0 (UserFn 9))] \<and>
   CounterIncr 0 \<notin> set (trace ex_top_closed) \<and>
   counters ex_top_closed 0 = 1"
  using ex_top_closed_facts(1,3,5) by (simp del: close.simps)

text \<open>
  \<^bold>\<open>C3\<close> (amended). In \<^verbatim>\<open>close\<close> the counter starts at 1. For the listening socket,
  for every inbound connection and for every sub-channel that is not destroyed, the
  counter is incremented immediately before the close of that resource is initiated (for
  a socket that is not bound yet: before the close is deferred to the \<^verbatim>\<open>listening\<close>
  event). The close of the peer pool is initiated last and without an increment: the
  initial 1 stands for it. When \<^verbatim>\<open>close\<close> returns, the counter is therefore 1 plus the
  number of these sockets, connections and sub-channels, and the handlers handed to the
  resources of the channel are all \<^verbatim>\<open>onClose\<close> (through \<^verbatim>\<open>closeServerSocket\<close> for the
  deferred socket), which decrements the counter by one each time it is invoked. The
  channel is taken to be well-formed, as every constructed channel of a reachable store is
  (lemma \<open>reachable_hypotheses\<close>).
\<close>

theorem close_increments_before_each_close_but_the_pool:
  assumes "wf_hier st c" and "\<not> destroyed (chans st c)"
  shows
  "\<exists>st1. (\<forall>n. close (Suc (Suc n)) st c k = Some (Inr (), st1)) \<and>
         trace st1 =
           trace st @ serverTrace c k (chans st c) @ connsTrace c k (chans st c) @
           kidsTrace c k st (kids st c) @ [PeersClose (peers (chans st c)) (OnClose c k)] \<and>
         pending st1 =
           pending st @ serverPending c k (chans st c) @ connsPending c k (chans st c) @
           kidsPending c k st (kids st c) @ [OnClose c k] \<and>
         counters st1 c =
           1 + int (nServer (chans st c)) + int (nConns (chans st c)) +
           int (length (kids st c)) \<and>
         (\<forall>s. pending (call (CloseServerSocket c k) s) = pending s @ [OnClose c k] \<and>
              counters (call (CloseServerSocket c k) s) = counters s) \<and>
         (\<forall>s. c \<notin> set (chain k) \<longrightarrow> counters (call (OnClose c k) s) c = counters s c - 1)"
proof (intro exI conjI allI impI)
  fix n
  show "close (Suc (Suc n)) st c k = Some (Inr (), closeTop c k st)"
    using assms(2) assms(1) by (rule close_top)
next
  note pr = closeTop_proj [OF assms(1), of k]
  show "trace (closeTop c k st) =
           trace st @ serverTrace c k (chans st c) @ connsTrace c k (chans st c) @
           kidsTrace c k st (kids st c) @ [PeersClose (peers (chans st c)) (OnClose c k)]"
    by (rule pr(2))
  show "pending (closeTop c k st) =
           pending st @ serverPending c k (chans st c) @ connsPending c k (chans st c) @
           kidsPending c k st (kids st c) @ [OnClose c k]"
    by (rule pr(3))
  show "counters (closeTop c k st) c =
           1 + int (nServer (chans st c)) + int (nConns (chans st c)) +
           int (length (kids st c))"
    by (simp add: pr(4) own_def)
next
  fix s
  show "pending (call (CloseServerSocket c k) s) = pending s @ [OnClose c k]"
    by (rule call_socket(1))
  show "counters (call (CloseServerSocket c k) s) = counters s"
    by (rule call_socket(2))
next
  fix s assume "c \<notin> set (chain k)"
  then show "counters (call (OnClose c k) s) c = counters s c - 1"
    by (rule call_decrements)
qed

theorem close_increments_before_each_close_but_the_pool_witness:
  "wf_hier ex_conn2 0 \<and> \<not> destroyed (chans ex_conn2 0) \<and> 0 \<notin> set (chain (UserFn 9)) \<and>
   (\<exists>st1. close 2 ex_conn2 0 (UserFn 9) = Some (Inr (), st1) \<and>
      trace st1 =
        trace ex_conn2 @
        [CounterIncr 0, ServerOnce 0 ''close'' (OnClose 0 (UserFn 9)), ServerClose 0,
         CounterIncr 0, ConnClose 1 (OnClose 0 (UserFn 9)),
         CounterIncr 0, PeersClose 1 (OnClose 1 (OnClose 0 (UserFn 9))),
         PeersClose 0 (OnClose 0 (UserFn 9))] \<and>
      counters st1 0 = 4 \<and>
      counters (call (OnClose 0 (UserFn 9)) st1) 0 = 3)"
proof -
  have live: "\<not> destroyed (chans ex_conn2 0)" by (simp add: ex_facts)
  have k: "kids ex_conn2 0 = [1]" by (simp add: kids_def ex_facts)
  have sh: "serverTrace 0 (UserFn 9) (chans ex_conn2 0) =
              [CounterIncr 0, ServerOnce 0 ''close'' (OnClose 0 (UserFn 9)), ServerClose 0]"
    "connsTrace 0 (UserFn 9) (chans ex_conn2 0) =
              [CounterIncr 0, ConnClose 1 (OnClose 0 (UserFn 9))]"
    "kidsTrace 0 (UserFn 9) ex_conn2 [1] =
              [CounterIncr 0, PeersClose 1 (OnClose 1 (OnClose 0 (UserFn 9)))]"
    "peers (chans ex_conn2 0) = 0"
    "nServer (chans ex_conn2 0) = 1" "nConns (chans ex_conn2 0) = 1"
    by (simp_all add: serverTrace_def connsTrace_def kidsTrace_def leafTrace_def nServer_def
          nConns_def ex_facts)
  from close_increments_before_each_close_but_the_pool [OF wf_ex_conn2 live, of "UserFn 9"]
  obtain st1 where st1: "\<forall>n. close (Suc (Suc n)) ex_conn2 0 (UserFn 9) = Some (Inr (), st1)"
    "trace st1 =
           trace ex_conn2 @ serverTrace 0 (UserFn 9) (chans ex_conn2 0) @
           connsTrace 0 (UserFn 9) (chans ex_conn2 0) @
           kidsTrace 0 (UserFn 9) ex_conn2 (kids ex_conn2 0) @
           [PeersClose (peers (chans ex_conn2 0)) (OnClose 0 (UserFn 9))]"
    "counters st1 0 =
           1 + int (nServer (chans ex_conn2 0)) + int (nConns (chans ex_conn2 0)) +
           int (length (kids ex_conn2 0))"
    "\<forall>s. 0 \<notin> set (chain (UserFn 9)) \<longrightarrow>
         counters (call (OnClose 0 (UserFn 9)) s) 0 = counters s 0 - 1"
    by blast
  have a: "close 2 ex_conn2 0 (UserFn 9) = Some (Inr (), st1)"
    using st1(1) by (simp add: numeral_2_eq_2 del: close.simps)
  have b: "counters st1 0 = 4" using st1(3) k sh by simp
  have c: "counters (call (OnClose 0 (UserFn 9)) st1) 0 = 3"
    using st1(4) b by simp
  have d: "trace st1 =
        trace ex_conn2 @
        [CounterIncr 0, ServerOnce 0 ''close'' (OnClose 0 (UserFn 9)), ServerClose 0,
         CounterIncr 0, ConnClose 1 (OnClose 0 (UserFn 9)),
         CounterIncr 0, PeersClose 1 (OnClose 1 (OnClose 0 (UserFn 9))),
         PeersClose 0 (OnClose 0 (UserFn 9))]"
    using st1(2) k sh by simp
  from wf_ex_conn2 live a b c d show ?thesis by auto
qed

text \<open>
  \<^bold>\<open>C1.\<close> \<^verbatim>\<open>close\<close> on a destroyed channel fails with the assertion error
  \<^verbatim>\<open>TChannel double close\<close> and changes nothing. On a channel that is not destroyed,
  \<^verbatim>\<open>close(f)\<close> returns with \<^verbatim>\<open>destroyed\<close> set and without having called \<open>f\<close>; it has
  handed one completion handler to the listening socket if there is one, to each inbound
  connection, to the peer pool, and the same for each sub-channel that was not destroyed.
  Then, in whatever order the collaborators complete, each once: as long as one of these
  completions is outstanding \<open>f\<close> has not been called, and once none is outstanding
  \<open>f\<close> has been called exactly once; and the completions can all arrive.

  The hypotheses hold in every reachable store, for every channel that has been
  constructed (lemma \<open>reachable_hypotheses\<close>), as long as \<open>f\<close> is not the callback of
  a close that is still in flight: the channel is well-formed (one entry per key in its
  tables; its sub-channels are distinct channels without sub-channels of their own), and
  the handlers that are pending already belong to closes of destroyed channels.
\<close>

theorem close_calls_back_once_after_all_completions:
  assumes wf: "wf_hier st c"
    and old: "\<forall>x \<in> set (pending st).
                (\<forall>a \<in> set (chain x). destroyed (chans st a)) \<and> user_fn x \<noteq> Some f"
  shows
  "(destroyed (chans st c) \<longrightarrow>
      (\<forall>n k. close (Suc n) st c k = Some (Inl (AssertionError ''TChannel double close''), st))) \<and>
   (\<not> destroyed (chans st c) \<longrightarrow>
      (\<exists>st1. (\<forall>n. close (Suc (Suc n)) st c (UserFn f) = Some (Inr (), st1)) \<and>
             destroyed (chans st1 c) \<and>
             calls f st1 = calls f st \<and>
             length (awaiting f st1) =
               nServer (chans st c) + nConns (chans st c) + 1 +
               sum_list (map (\<lambda>b. nServer (chans st b) + nConns (chans st b) + 1)
                           (kids st c)) \<and>
             (\<forall>sched st2. run sched st1 = Some st2 \<longrightarrow>
                calls f st2 = calls f st + (if awaiting f st2 = [] then 1 else 0)) \<and>
             (\<exists>sched st2. run sched st1 = Some st2 \<and> awaiting f st2 = [])))"
proof (intro conjI impI)
  assume "destroyed (chans st c)"
  then show "\<forall>n k. close (Suc n) st c k =
      Some (Inl (AssertionError ''TChannel double close''), st)"
    using close_destroyed by blast
next
  assume live: "\<not> destroyed (chans st c)"
  let ?s = "closeTop c (UserFn f) st"
  have J: "joined c f (set (kids st c)) (calls f st) ?s"
    using wf live old by (rule joined_closeTop)
  have old2: "\<forall>x \<in> set (pending st). user_fn x \<noteq> Some f" using old by blast
  have aw: "awaiting f ?s =
           serverPending c (UserFn f) (chans st c) @ connsPending c (UserFn f) (chans st c) @
           kidsPending c (UserFn f) st (kids st c) @ [OnClose c (UserFn f)]"
    using wf old2 by (rule awaiting_closeTop)
  show "\<exists>st1. (\<forall>n. close (Suc (Suc n)) st c (UserFn f) = Some (Inr (), st1)) \<and>
             destroyed (chans st1 c) \<and>
             calls f st1 = calls f st \<and>
             length (awaiting f st1) =
               nServer (chans st c) + nConns (chans st c) + 1 +
               sum_list (map (\<lambda>b. nServer (chans st b) + nConns (chans st b) + 1)
                           (kids st c)) \<and>
             (\<forall>sched st2. run sched st1 = Some st2 \<longrightarrow>
                calls f st2 = calls f st + (if awaiting f st2 = [] then 1 else 0)) \<and>
             (\<exists>sched st2. run sched st1 = Some st2 \<and> awaiting f st2 = [])"
  proof (intro exI [of _ ?s] conjI allI impI)
    fix n
    show "close (Suc (Suc n)) st c (UserFn f) = Some (Inr (), ?s)"
      using live wf by (rule close_top)
  next
    show "destroyed (chans ?s c)" by (simp add: closeTop_proj(1) [OF wf])
    show "calls f ?s = calls f st" using joined_calls [OF J] aw by simp
    show "length (awaiting f ?s) =
               nServer (chans st c) + nConns (chans st c) + 1 +
               sum_list (map (\<lambda>b. nServer (chans st b) + nConns (chans st b) + 1)
                           (kids st c))"
      unfolding aw
      by (simp add: length_serverPending length_connsPending length_kidsPending)
  next
    fix sched st2
    assume "run sched ?s = Some st2"
    with J have "joined c f (set (kids st c)) (calls f st) st2" by (rule joined_run)
    then show "calls f st2 = calls f st + (if awaiting f st2 = [] then 1 else 0)"
      by (rule joined_calls)
  next
    from run_completes [of ?s] obtain sched st2 where
      "run sched ?s = Some st2" "pending st2 = []" by blast
    then have "run sched ?s = Some st2 \<and> awaiting f st2 = []" by (simp add: awaiting_def)
    then show "\<exists>sched st2. run sched ?s = Some st2 \<and> awaiting f st2 = []" by blast
  qed
qed

theorem close_calls_back_once_after_all_completions_witness:
  "wf_hier ex_two_closing 0 \<and>
   pending ex_two_closing = [OnClose 2 (UserFn 5)] \<and>
   chain (OnClose 2 (UserFn 5)) = [2] \<and> destroyed (chans ex_two_closing 2) \<and>
   user_fn (OnClose 2 (UserFn 5)) = Some 5 \<and>
   \<not> destroyed (chans ex_two_closing 0) \<and>
   (\<exists>st1. close 2 ex_two_closing 0 (UserFn 9) = Some (Inr (), st1) \<and>
      length (awaiting 9 st1) = 4 \<and>
      (\<exists>st2. run ex_schedule st1 = Some st2 \<and> awaiting 9 st2 \<noteq> [] \<and> calls 9 st2 = 0) \<and>
      (\<exists>st3. run (ex_schedule @ [0]) st1 = Some st3 \<and> awaiting 9 st3 = [] \<and>
             calls 9 st3 = 1))"
proof -
  let ?k = "UserFn 9"
  let ?s = "closeTop 0 ?k ex_two_closing"
  have live: "\<not> destroyed (chans ex_two_closing 0)"
    by (simp add: ex_two_closing_facts ex_two_facts ex_facts)
  have old: "\<forall>x \<in> set (pending ex_two_closing).
      (\<forall>a \<in> set (chain x). destroyed (chans ex_two_closing a)) \<and> user_fn x \<noteq> Some 9"
    by (simp add: ex_two_closing_facts ex_two_facts)
  have c0: "calls 9 ex_two_closing = 0"
    by (simp add: calls_def ex_two_closing_facts ex_two_facts ex_facts)
  have k: "kids ex_two_closing 0 = [1]"
    by (simp add: kids_def ex_two_closing_facts ex_two_facts ex_facts)
  have n: "nServer (chans ex_two_closing 0) = 1" "nConns (chans ex_two_closing 0) = 1"
    "nServer (chans ex_two_closing (Suc 0)) = 0" "nConns (chans ex_two_closing (Suc 0)) = 0"
    by (simp_all add: nServer_def nConns_def ex_two_closing_facts ex_two_facts ex_facts)
  note pr = closeTop_proj [OF wf_ex_two_closing, of ?k]
  have p: "pending ?s =
      [OnClose 2 (UserFn 5), OnClose 0 ?k, OnClose 0 ?k, OnClose 1 (OnClose 0 ?k), OnClose 0 ?k]"
    unfolding pr(3) k
    by (simp add: serverPending_def connsPending_def kidsPending_def leafPending_def
          ex_two_closing_facts ex_two_facts ex_facts)
  have cn: "counters ?s 0 = 4" "counters ?s (Suc 0) = 1" "counters ?s 2 = 1"
    unfolding pr(4) k by (simp_all add: own_def n ex_two_closing_facts(6))
  from close_calls_back_once_after_all_completions [OF wf_ex_two_closing old] live
  obtain st1 where st1: "\<forall>n. close (Suc (Suc n)) ex_two_closing 0 ?k = Some (Inr (), st1)"
    "length (awaiting 9 st1) =
       nServer (chans ex_two_closing 0) + nConns (chans ex_two_closing 0) + 1 +
       sum_list (map (\<lambda>b. nServer (chans ex_two_closing b) + nConns (chans ex_two_closing b) + 1)
                   (kids ex_two_closing 0))"
    "\<forall>sched st2. run sched st1 = Some st2 \<longrightarrow>
       calls 9 st2 = calls 9 ex_two_closing + (if awaiting 9 st2 = [] then 1 else 0)"
    by blast
  have "close (Suc (Suc 0)) ex_two_closing 0 ?k = Some (Inr (), ?s)"
    using live wf_ex_two_closing by (rule close_top)
  with st1(1) have eq: "st1 = ?s" by (simp del: close.simps)
  have a: "close 2 ex_two_closing 0 ?k = Some (Inr (), st1)"
    using st1(1) by (simp add: numeral_2_eq_2 del: close.simps)
  have b: "length (awaiting 9 st1) = 4" using st1(2) k n by simp
  obtain st2 where r2: "run ex_schedule ?s = Some st2" and p2: "pending st2 = [OnClose 0 ?k]"
    by (simp add: ex_schedule_def fire_def p cn Let_def)
  obtain st3 where r3: "run (ex_schedule @ [0]) ?s = Some st3" and p3: "pending st3 = []"
    by (simp add: ex_schedule_def fire_def p cn Let_def)
  have a2: "awaiting 9 st2 \<noteq> []" using p2 by (simp add: awaiting_def)
  have a3: "awaiting 9 st3 = []" using p3 by (simp add: awaiting_def)
  have c2: "calls 9 st2 = 0" using st1(3) r2 a2 c0 unfolding eq by simp
  have c3: "calls 9 st3 = 1" using st1(3) r3 a3 c0 unfolding eq by simp
  have ne: "pending ex_two_closing = [OnClose 2 (UserFn 5)]"
    "chain (OnClose 2 (UserFn 5)) = [2]" "destroyed (chans ex_two_closing 2)"
    "user_fn (OnClose 2 (UserFn 5)) = Some 5"
    by (simp_all add: ex_two_closing_facts ex_two_facts)
  from wf_ex_two_closing ne live a b r2 a2 c2 r3 a3 c3 show ?thesis
    unfolding eq by blast
qed

end
